theory Spec2Isabelle
  imports Complex_Main
begin

section \<open>Monte Carlo tree search agent (src/mcts_agent.cpp)\<close>

text \<open>
  A shallow embedding of \<^verbatim>\<open>Mcts_agent\<close>: the statistics nodes live in an explicit
  store, the loops are recursive functions, and everything the C++ code does beyond
  returning a value (mutation of the nodes, draws from the random generator, readings of
  the clock, exceptions, undefined behaviour) is a value of the model.

  What the model leaves out or takes as given:
  \<^item> The verbose trace only prints; \<^verbatim>\<open>is_verbose\<close> and the output are not modelled.
  \<^item> The constructor is not modelled: a search starts from the members of the agent as
    they are, with the random generator in some state (the constructor seeds it from
    \<^verbatim>\<open>std::random_device\<close>).
  \<^item> The header \<^verbatim>\<open>mcts_agent.h\<close>, the board and the cell states are not among the
    sources. The counters of a node are integers without an upper bound here, and a
    board is a value that is copied when it is passed by value.
  \<^item> The scheduling of the worker threads. In parallel mode the rollouts of one batch
    are modelled in thread-index order; the code joins the batch before it backpropagates
    any result, so backpropagation is sequential in the code as well.
  \<^item> Points in time are integers; the budget is added to the first reading of the
    clock without overflow.
\<close>

subsection \<open>Players and coordinates\<close>

text \<open>The enumeration \<^verbatim>\<open>Cell_state\<close>; the code uses the three values below.\<close>

datatype Cell_state = Empty | Blue | Red

type_synonym coord = "int \<times> int"

subsection \<open>Doubles\<close>

text \<open>
  The values of a C++ \<^verbatim>\<open>double\<close> (IEEE 754 binary64): the two infinities, NaN, and
  the finite values, each of which is a real number. Every arithmetic operation
  computes the exact real result and rounds it to the nearest double, ties to the even
  significand; a rounded result beyond the largest finite double is an infinity. Each
  operation rounds on its own (no fused multiply-add). The two zeros are identified:
  the code never divides by a computed zero, every divisor is an integer converted to
  double.
\<close>

datatype double = NaN | NegInf | Finite real | PosInf

text \<open>\<^verbatim>\<open>std::numeric_limits<double>::max()\<close>\<close>

definition DBL_MAX :: real where
  "DBL_MAX = (2 - 1 / 2 ^ 52) * 2 ^ 1023"

text \<open>The nearest integer, the even one of the two when they are equally near.\<close>

definition round_even :: "real \<Rightarrow> int" where
  "round_even x =
     (let n = \<lfloor>x\<rfloor>; r = x - of_int n
      in if r < 1 / 2 then n else if 1 / 2 < r then n + 1
         else if even n then n else n + 1)"

text \<open>
  The doubles around \<open>x\<close> are the integer multiples of \<open>quantum x\<close>: a significand of 53
  bits at the exponent of \<open>x\<close>, which is at least \<open>-1022\<close> (below it the doubles are
  subnormal and keep the spacing \<open>2\<^sup>-\<^sup>1\<^sup>0\<^sup>7\<^sup>4\<close>).
\<close>

definition binade :: "real \<Rightarrow> int" where
  "binade x = max \<lfloor>log 2 \<bar>x\<bar>\<rfloor> (- 1022)"

definition quantum :: "real \<Rightarrow> real" where
  "quantum x = 2 powr (of_int (binade x) - 52)"

text \<open>Rounding to the nearest multiple of the quantum, with no bound on the exponent.\<close>

definition round_binary64 :: "real \<Rightarrow> real" where
  "round_binary64 x =
     (if x = 0 then 0 else of_int (round_even (x / quantum x)) * quantum x)"

text \<open>The double that an operation with the exact result \<open>x\<close> returns.\<close>

definition to_double :: "real \<Rightarrow> double" where
  "to_double x =
     (let y = round_binary64 x
      in if DBL_MAX < y then PosInf else if y < - DBL_MAX then NegInf else Finite y)"

text \<open>
  \<^verbatim>\<open>static_cast<double>(n)\<close>, and the implicit conversion of an integer operand. The
  conversion rounds; no integer type of C++ reaches beyond the finite doubles.
\<close>

definition double_of_int :: "int \<Rightarrow> double" where
  "double_of_int n = Finite (round_binary64 (of_int n))"

text \<open>\<^verbatim>\<open>x / n\<close> for a double \<open>x\<close> and an integer \<open>n\<close> (converted to double first).\<close>

fun ddiv_int :: "double \<Rightarrow> int \<Rightarrow> double" where
  "ddiv_int NaN n = NaN"
| "ddiv_int PosInf n = (if 0 \<le> n then PosInf else NegInf)"
| "ddiv_int NegInf n = (if 0 \<le> n then NegInf else PosInf)"
| "ddiv_int (Finite a) n =
     (if n = 0 then (if a = 0 then NaN else if 0 < a then PosInf else NegInf)
      else to_double (a / round_binary64 (of_int n)))"

text \<open>\<^verbatim>\<open>std::sqrt\<close>, which IEEE 754 requires to be correctly rounded.\<close>

fun dsqrt :: "double \<Rightarrow> double" where
  "dsqrt NaN = NaN"
| "dsqrt NegInf = NaN"
| "dsqrt PosInf = PosInf"
| "dsqrt (Finite a) = (if a < 0 then NaN else to_double (sqrt a))"

fun dmul :: "double \<Rightarrow> double \<Rightarrow> double" where
  "dmul NaN y = NaN"
| "dmul x NaN = NaN"
| "dmul (Finite a) (Finite b) = to_double (a * b)"
| "dmul (Finite a) PosInf = (if a = 0 then NaN else if 0 < a then PosInf else NegInf)"
| "dmul (Finite a) NegInf = (if a = 0 then NaN else if 0 < a then NegInf else PosInf)"
| "dmul PosInf (Finite b) = (if b = 0 then NaN else if 0 < b then PosInf else NegInf)"
| "dmul NegInf (Finite b) = (if b = 0 then NaN else if 0 < b then NegInf else PosInf)"
| "dmul PosInf PosInf = PosInf"
| "dmul PosInf NegInf = NegInf"
| "dmul NegInf PosInf = NegInf"
| "dmul NegInf NegInf = PosInf"

fun dadd :: "double \<Rightarrow> double \<Rightarrow> double" where
  "dadd NaN y = NaN"
| "dadd x NaN = NaN"
| "dadd (Finite a) (Finite b) = to_double (a + b)"
| "dadd PosInf NegInf = NaN"
| "dadd NegInf PosInf = NaN"
| "dadd PosInf y = PosInf"
| "dadd NegInf y = NegInf"
| "dadd (Finite a) PosInf = PosInf"
| "dadd (Finite a) NegInf = NegInf"

text \<open>\<^verbatim>\<open>x > y\<close> on doubles: false as soon as one side is NaN.\<close>

fun dgt :: "double \<Rightarrow> double \<Rightarrow> bool" where
  "dgt NaN y = False"
| "dgt x NaN = False"
| "dgt (Finite a) (Finite b) = (b < a)"
| "dgt PosInf PosInf = False"
| "dgt PosInf y = True"
| "dgt x NegInf = (x \<noteq> NegInf)"
| "dgt x PosInf = False"
| "dgt NegInf y = False"

subsection \<open>Statistics nodes and the store\<close>

text \<open>
  \<^verbatim>\<open>Mcts_agent::Node\<close>. A \<^verbatim>\<open>shared_ptr<Node>\<close> is an address in the store
  (\<open>None\<close> is \<^verbatim>\<open>nullptr\<close>); the store is the list of all nodes made so far, and
  \<^verbatim>\<open>make_shared\<close> appends to it. A shared pointer that is not null always points to
  a node, so the functions below are meant for addresses inside the store. The counters
  are declared in the header, which is not part of the sources; they are integers here,
  without an upper bound.
\<close>

record Node =
  win_count :: int
  visit_count :: int
  move :: coord
  player :: Cell_state
  child_nodes :: "nat list"
  parent_node :: "nat option"

text \<open>The constructor \<^verbatim>\<open>Node::Node(player, move, parent_node)\<close>.\<close>

definition make_Node :: "Cell_state \<Rightarrow> coord \<Rightarrow> nat option \<Rightarrow> Node" where
  "make_Node p m par =
     \<lparr>win_count = 0, visit_count = 0, move = m, player = p,
      child_nodes = [], parent_node = par\<rparr>"

subsection \<open>The collaborators\<close>

text \<open>
  The board, the random number generator, the clock and the number of hardware
  threads are parameters: \<open>'b\<close> is the type of board values, \<open>'g\<close> the type of
  generator states.
  \<^item> \<open>get_valid_moves\<close>, \<open>make_move\<close>, \<open>check_winner\<close>: the methods of \<^verbatim>\<open>Board\<close>;
    \<open>make_move\<close> returns the board after the move.
  \<^item> \<open>uniform_int a b g\<close>: one draw of \<^verbatim>\<open>std::uniform_int_distribution<>(a, b)\<close> from
    the generator in state \<open>g\<close>, with the state of the generator after the draw.
  \<^item> \<open>now k\<close>: what the \<open>k\<close>-th call of
    \<^verbatim>\<open>std::chrono::high_resolution_clock::now()\<close> returns.
  \<^item> \<open>hardware_concurrency\<close>: \<^verbatim>\<open>std::thread::hardware_concurrency()\<close>.
  \<^item> \<open>std_log\<close>: \<^verbatim>\<open>std::log\<close> on doubles, as the mathematical library computes it;
    how closely it follows the natural logarithm is the library's matter.
\<close>

record ('b, 'g) environment =
  get_valid_moves :: "'b \<Rightarrow> coord list"
  make_move :: "int \<Rightarrow> int \<Rightarrow> Cell_state \<Rightarrow> 'b \<Rightarrow> 'b"
  check_winner :: "'b \<Rightarrow> Cell_state"
  uniform_int :: "int \<Rightarrow> int \<Rightarrow> 'g \<Rightarrow> int \<times> 'g"
  now :: "nat \<Rightarrow> int"
  hardware_concurrency :: nat
  std_log :: "double \<Rightarrow> double"

text \<open>
  The state a search works on: the members of the agent, the store of nodes, the number
  of clock readings taken so far, and the board object of the caller, which
  \<^verbatim>\<open>choose_move\<close> receives by const reference.
\<close>

record ('b, 'g) state =
  exploration_factor :: double
  max_decision_time :: int
  is_parallelized :: bool
  random_generator :: 'g
  root_node :: "nat option"
  nodes :: "Node list"
  clock_reads :: nat
  caller_board :: 'b

subsection \<open>Failures\<close>

text \<open>
  \<open>Undefined_behaviour\<close>: the code reads a vector out of range or builds a
  distribution over an empty range; C++ defines no result and the code reports
  nothing. An exception that the code throws is a value of type \<open>exception\<close>.
  A loop that does not terminate is \<open>None\<close> at the outermost \<open>option\<close>.
\<close>

datatype 'a result = Undefined_behaviour | Defined 'a

datatype exception = Runtime_error string

subsection \<open>Expansion\<close>

text \<open>The loop of \<^verbatim>\<open>expand_node\<close> over the valid moves, on the store.\<close>

fun expand_moves :: "nat \<Rightarrow> coord list \<Rightarrow> Node list \<Rightarrow> Node list" where
  "expand_moves node [] h = h"
| "expand_moves node (m # ms) h =
     (let new_child = length h;
          h1 = h @ [make_Node (player (h ! node)) m (Some node)];
          h2 = h1[node := (h1 ! node)\<lparr>child_nodes := child_nodes (h1 ! node) @ [new_child]\<rparr>]
      in expand_moves node ms h2)"

definition expand_node ::
  "('b, 'g) environment \<Rightarrow> nat \<Rightarrow> ('b, 'g) state \<Rightarrow> ('b, 'g) state" where
  "expand_node env node s =
     (let valid_moves = get_valid_moves env (caller_board s)
      in s\<lparr>nodes := expand_moves node valid_moves (nodes s)\<rparr>)"

subsection \<open>Selection\<close>

definition calculate_uct_score ::
  "('b, 'g) environment \<Rightarrow> double \<Rightarrow> Node list \<Rightarrow> nat \<Rightarrow> nat \<Rightarrow> double" where
  "calculate_uct_score env c h child_node parent =
     (if visit_count (h ! child_node) = 0 then Finite DBL_MAX
      else dadd (ddiv_int (double_of_int (win_count (h ! child_node)))
                          (visit_count (h ! child_node)))
                (dmul c (dsqrt (ddiv_int (std_log env (double_of_int (visit_count (h ! parent))))
                                         (visit_count (h ! child_node))))))"

text \<open>The loop of \<^verbatim>\<open>select_child\<close>, from the second child on.\<close>

fun select_scan ::
  "('b, 'g) environment \<Rightarrow> double \<Rightarrow> Node list \<Rightarrow> nat \<Rightarrow> nat list \<Rightarrow> nat \<Rightarrow> double \<Rightarrow> nat" where
  "select_scan env c h parent [] best_child max_score = best_child"
| "select_scan env c h parent (child # rest) best_child max_score =
     (let uct_score = calculate_uct_score env c h child parent
      in if dgt uct_score max_score
         then select_scan env c h parent rest child uct_score
         else select_scan env c h parent rest best_child max_score)"

text \<open>
  \<^verbatim>\<open>select_child\<close> reads \<^verbatim>\<open>child_nodes[0]\<close> without a check: on a node without
  children the behaviour is undefined.
\<close>

definition select_child ::
  "('b, 'g) environment \<Rightarrow> double \<Rightarrow> Node list \<Rightarrow> nat \<Rightarrow> nat result" where
  "select_child env c h parent =
     (case child_nodes (h ! parent) of
        [] \<Rightarrow> Undefined_behaviour
      | first_child # rest \<Rightarrow>
          Defined (select_scan env c h parent rest first_child
                     (calculate_uct_score env c h first_child parent)))"

subsection \<open>Rollout\<close>

definition other_player :: "Cell_state \<Rightarrow> Cell_state" where
  "other_player p = (if p = Blue then Red else Blue)"

text \<open>
  The while loop of \<^verbatim>\<open>simulate_random_playout\<close> on the function's own board.
  With no valid move the code builds \<^verbatim>\<open>uniform_int_distribution<>(0, -1)\<close> and
  indexes the empty vector; an index outside the vector is undefined as well.
\<close>

partial_function (option) playout_loop ::
  "('b, 'g) environment \<Rightarrow> 'b \<Rightarrow> Cell_state \<Rightarrow> 'g \<Rightarrow> (Cell_state \<times> 'g) result option" where
  "playout_loop env board current_player rng =
     (if check_winner env board = Empty then
        (let current_player' = other_player current_player;
             valid_moves = get_valid_moves env board
         in if valid_moves = [] then Some Undefined_behaviour
            else
              (let (k, rng') = uniform_int env 0 (int (length valid_moves) - 1) rng
               in if k < 0 \<or> int (length valid_moves) \<le> k then Some Undefined_behaviour
                  else
                    (let random_move = valid_moves ! nat k;
                         board' = make_move env (fst random_move) (snd random_move)
                                    current_player' board
                     in if check_winner env board' \<noteq> Empty
                        then Some (Defined (current_player', rng'))
                        else playout_loop env board' current_player' rng')))
      else Some (Defined (current_player, rng)))"

definition simulate_random_playout ::
  "('b, 'g) environment \<Rightarrow> Node list \<Rightarrow> nat \<Rightarrow> 'b \<Rightarrow> 'g \<Rightarrow> (Cell_state \<times> 'g) result option" where
  "simulate_random_playout env h node board rng =
     (let current_player = player (h ! node);
          board1 = make_move env (fst (move (h ! node))) (snd (move (h ! node)))
                     current_player board
      in playout_loop env board1 current_player rng)"

subsection \<open>Backpropagation\<close>

text \<open>What one pass of the loop of \<^verbatim>\<open>backpropagate\<close> does to the node it holds locked.\<close>

definition credit :: "Cell_state \<Rightarrow> Node \<Rightarrow> Node" where
  "credit winner n =
     (let n1 = n\<lparr>visit_count := visit_count n + 1\<rparr>
      in if winner = player n1 then n1\<lparr>win_count := win_count n1 + 1\<rparr> else n1)"

partial_function (option) backpropagate ::
  "Cell_state \<Rightarrow> nat option \<Rightarrow> Node list \<Rightarrow> Node list option" where
  "backpropagate winner current_node h =
     (case current_node of
        None \<Rightarrow> Some h
      | Some a \<Rightarrow>
          (let h' = h[a := credit winner (h ! a)]
           in backpropagate winner (parent_node (h' ! a)) h'))"

subsection \<open>The search\<close>

text \<open>
  The rollouts of one parallel batch, in thread-index order, and the
  backpropagation of their results.
\<close>

fun playout_batch ::
  "('b, 'g) environment \<Rightarrow> nat \<Rightarrow> Node list \<Rightarrow> nat \<Rightarrow> 'b \<Rightarrow> 'g
     \<Rightarrow> (Cell_state list \<times> 'g) result option" where
  "playout_batch env 0 h node board rng = Some (Defined ([], rng))"
| "playout_batch env (Suc n) h node board rng =
     (case simulate_random_playout env h node board rng of
        None \<Rightarrow> None
      | Some Undefined_behaviour \<Rightarrow> Some Undefined_behaviour
      | Some (Defined (w, rng1)) \<Rightarrow>
          (case playout_batch env n h node board rng1 of
             None \<Rightarrow> None
           | Some Undefined_behaviour \<Rightarrow> Some Undefined_behaviour
           | Some (Defined (ws, rng2)) \<Rightarrow> Some (Defined (w # ws, rng2))))"

fun backpropagate_all :: "Cell_state list \<Rightarrow> nat \<Rightarrow> Node list \<Rightarrow> Node list option" where
  "backpropagate_all [] node h = Some h"
| "backpropagate_all (w # ws) node h =
     (case backpropagate w (Some node) h of
        None \<Rightarrow> None
      | Some h1 \<Rightarrow> backpropagate_all ws node h1)"

text \<open>One pass of the while loop of \<^verbatim>\<open>choose_move\<close>; \<open>r\<close> is the root.\<close>

definition iteration ::
  "('b, 'g) environment \<Rightarrow> nat \<Rightarrow> ('b, 'g) state \<Rightarrow> ('b, 'g) state result option" where
  "iteration env r s =
     (case select_child env (exploration_factor s) (nodes s) r of
        Undefined_behaviour \<Rightarrow> Some Undefined_behaviour
      | Defined chosen_child \<Rightarrow>
          if is_parallelized s then
            (case playout_batch env (hardware_concurrency env) (nodes s) chosen_child
                    (caller_board s) (random_generator s) of
               None \<Rightarrow> None
             | Some Undefined_behaviour \<Rightarrow> Some Undefined_behaviour
             | Some (Defined (results, rng')) \<Rightarrow>
                 (case backpropagate_all results chosen_child (nodes s) of
                    None \<Rightarrow> None
                  | Some h' \<Rightarrow> Some (Defined (s\<lparr>random_generator := rng', nodes := h'\<rparr>))))
          else
            (case simulate_random_playout env (nodes s) chosen_child
                    (caller_board s) (random_generator s) of
               None \<Rightarrow> None
             | Some Undefined_behaviour \<Rightarrow> Some Undefined_behaviour
             | Some (Defined (playout_winner, rng')) \<Rightarrow>
                 (case backpropagate playout_winner (Some chosen_child) (nodes s) of
                    None \<Rightarrow> None
                  | Some h' \<Rightarrow> Some (Defined (s\<lparr>random_generator := rng', nodes := h'\<rparr>)))))"

text \<open>The while loop: one reading of the clock before each pass.\<close>

partial_function (option) search_loop ::
  "('b, 'g) environment \<Rightarrow> nat \<Rightarrow> int \<Rightarrow> ('b, 'g) state \<Rightarrow> ('b, 'g) state result option" where
  "search_loop env r end_time s =
     (let t = now env (clock_reads s);
          s1 = s\<lparr>clock_reads := clock_reads s + 1\<rparr>
      in if t < end_time then
           (case iteration env r s1 of
              None \<Rightarrow> None
            | Some Undefined_behaviour \<Rightarrow> Some Undefined_behaviour
            | Some (Defined s2) \<Rightarrow> search_loop env r end_time s2)
         else Some (Defined s1))"

text \<open>
  The final scan of \<^verbatim>\<open>choose_move\<close> over the children of the root:
  \<open>best_child\<close> is \<open>None\<close> while it is the null pointer.
\<close>

fun best_scan :: "Node list \<Rightarrow> nat list \<Rightarrow> double \<Rightarrow> nat option \<Rightarrow> nat option" where
  "best_scan h [] max_win_ratio best_child = best_child"
| "best_scan h (child # rest) max_win_ratio best_child =
     (let win_ratio = ddiv_int (double_of_int (win_count (h ! child))) (visit_count (h ! child))
      in if dgt win_ratio max_win_ratio
         then best_scan h rest win_ratio (Some child)
         else best_scan h rest max_win_ratio best_child)"

definition best_move :: "Node list \<Rightarrow> nat \<Rightarrow> exception + coord" where
  "best_move h r =
     (case best_scan h (child_nodes (h ! r)) (Finite (- 1)) None of
        None \<Rightarrow> Inl (Runtime_error ''Statistics are not sufficient to find the best child.'')
      | Some best_child \<Rightarrow> Inr (move (h ! best_child)))"

text \<open>
  \<^verbatim>\<open>choose_move(board, player)\<close>: the board is \<open>caller_board s\<close>. The result is the
  move or the exception, with the state the call leaves behind.
\<close>

definition choose_move ::
  "('b, 'g) environment \<Rightarrow> Cell_state \<Rightarrow> ('b, 'g) state
     \<Rightarrow> ((exception + coord) \<times> ('b, 'g) state) result option" where
  "choose_move env p s =
     (let r = length (nodes s);
          s1 = s\<lparr>root_node := Some r, nodes := nodes s @ [make_Node p (- 1, - 1) None]\<rparr>;
          s2 = expand_node env r s1;
          start_time = now env (clock_reads s2);
          s3 = s2\<lparr>clock_reads := clock_reads s2 + 1\<rparr>;
          end_time = start_time + max_decision_time s3
      in case search_loop env r end_time s3 of
           None \<Rightarrow> None
         | Some Undefined_behaviour \<Rightarrow> Some Undefined_behaviour
         | Some (Defined s4) \<Rightarrow> Some (Defined (best_move (nodes s4) r, s4)))"

section \<open>Notions used in the statements\<close>

subsection \<open>The bound on the counters\<close>

definition node_ok :: "Node \<Rightarrow> bool" where
  "node_ok n \<longleftrightarrow> 0 \<le> win_count n \<and> win_count n \<le> visit_count n"

definition heap_ok :: "Node list \<Rightarrow> bool" where
  "heap_ok h \<longleftrightarrow> list_all node_ok h"

text \<open>
  Two stores have the same shape when they differ in the counters only;
  \<open>counters_only s s'\<close> says what a search may change in the state: the generator, the
  number of clock readings, and the counters of the nodes, which stay within their bound
  in every suffix of the store where they were.
\<close>

definition erase_counters :: "Node \<Rightarrow> Node" where
  "erase_counters n = n\<lparr>win_count := 0, visit_count := 0\<rparr>"

definition counters_only :: "('b, 'g) state \<Rightarrow> ('b, 'g) state \<Rightarrow> bool" where
  "counters_only s s' \<longleftrightarrow>
     (\<exists>g h k. s' = s\<lparr>random_generator := g, nodes := h, clock_reads := k\<rparr> \<and>
        map erase_counters h = map erase_counters (nodes s) \<and>
        (\<forall>k. heap_ok (drop k (nodes s)) \<longrightarrow> heap_ok (drop k h)))"

text \<open>
  The tree that \<^verbatim>\<open>choose_move\<close> has built when the loop starts: the root at address
  \<open>r\<close> and one child per valid move behind it.
\<close>

definition fresh_tree :: "Cell_state \<Rightarrow> coord list \<Rightarrow> nat \<Rightarrow> Node list" where
  "fresh_tree p ms r =
     (make_Node p (- 1, - 1) None)\<lparr>child_nodes := [r + 1 ..< r + 1 + length ms]\<rparr>
       # map (\<lambda>m. make_Node p m (Some r)) ms"

subsection \<open>Win ratio, score and the one exception\<close>

text \<open>
  The win ratio of a visited node as the final scan computes it: the counters converted
  to double, their quotient rounded to the nearest double. \<open>exact_ratio\<close> is the
  quotient of the counters as a real number.
\<close>

definition win_ratio :: "Node \<Rightarrow> real" where
  "win_ratio n =
     round_binary64 (round_binary64 (of_int (win_count n)) / round_binary64 (of_int (visit_count n)))"

definition exact_ratio :: "Node \<Rightarrow> real" where
  "exact_ratio n = real_of_int (win_count n) / real_of_int (visit_count n)"

text \<open>
  The score of the specification,
  \<open>win_count / visit_count + c * sqrt (ln parent_visits / visit_count)\<close>, with each
  operation carried out on doubles and the logarithm taken by the library.
\<close>

definition uct_formula :: "('b, 'g) environment \<Rightarrow> double \<Rightarrow> Node \<Rightarrow> Node \<Rightarrow> double" where
  "uct_formula env c child parent =
     dadd (ddiv_int (double_of_int (win_count child)) (visit_count child))
          (dmul c (dsqrt (ddiv_int (std_log env (double_of_int (visit_count parent)))
                                   (visit_count child))))"

definition insufficient_statistics :: exception where
  "insufficient_statistics = Runtime_error ''Statistics are not sufficient to find the best child.''"

subsection \<open>The rollout in the words of the specification\<close>

text \<open>
  \<open>rollout env board p g w g'\<close>: from \<open>board\<close>, with \<open>p\<close> the current player and the
  generator in state \<open>g\<close>, the rollout ends with \<open>w\<close> as the current player and the
  generator in state \<open>g'\<close>. While the board reports no winner: flip to the other
  player, pick the legal move at the index drawn from \<open>0 .. n - 1\<close>, apply it for that
  player, check again.
\<close>

inductive rollout ::
  "('b, 'g) environment \<Rightarrow> 'b \<Rightarrow> Cell_state \<Rightarrow> 'g \<Rightarrow> Cell_state \<Rightarrow> 'g \<Rightarrow> bool"
  for env :: "('b, 'g) environment" where
  rollout_won:
    "check_winner env board \<noteq> Empty \<Longrightarrow> rollout env board p g p g"
| rollout_move:
    "check_winner env board = Empty \<Longrightarrow>
     get_valid_moves env board \<noteq> [] \<Longrightarrow>
     uniform_int env 0 (int (length (get_valid_moves env board)) - 1) g = (k, g') \<Longrightarrow>
     0 \<le> k \<Longrightarrow> k < int (length (get_valid_moves env board)) \<Longrightarrow>
     m = get_valid_moves env board ! nat k \<Longrightarrow>
     rollout env (make_move env (fst m) (snd m) (other_player p) board) (other_player p) g' w g'' \<Longrightarrow>
     rollout env board p g w g''"

subsection \<open>What the rollout expects of its collaborators\<close>

text \<open>
  A position without a winner has a legal move, and a draw from \<open>0 .. n - 1\<close> lies in
  that range.
\<close>

definition board_contract :: "('b, 'g) environment \<Rightarrow> bool" where
  "board_contract env \<longleftrightarrow>
     (\<forall>b. check_winner env b = Empty \<longrightarrow> get_valid_moves env b \<noteq> []) \<and>
     (\<forall>n g. 0 < n \<longrightarrow> 0 \<le> fst (uniform_int env 0 (n - 1) g) \<and> fst (uniform_int env 0 (n - 1) g) < n)"

subsection \<open>Points in time that the clock can hold\<close>


subsection \<open>Rollouts that end\<close>


subsection \<open>A search of a given number of passes\<close>

text \<open>
  The search loop when the clock is left out: \<open>n\<close> passes, then the reading that ends
  the loop. \<open>passes_allowed clock k end_time n\<close>: from its \<open>k\<close>-th reading on, the clock
  stays before \<open>end_time\<close> for exactly \<open>n\<close> readings.
\<close>

fun search_passes ::
  "('b, 'g) environment \<Rightarrow> nat \<Rightarrow> nat \<Rightarrow> ('b, 'g) state \<Rightarrow> ('b, 'g) state result option" where
  "search_passes env r 0 s = Some (Defined (s\<lparr>clock_reads := clock_reads s + 1\<rparr>))"
| "search_passes env r (Suc n) s =
     (case iteration env r (s\<lparr>clock_reads := clock_reads s + 1\<rparr>) of
        None \<Rightarrow> None
      | Some Undefined_behaviour \<Rightarrow> Some Undefined_behaviour
      | Some (Defined s2) \<Rightarrow> search_passes env r n s2)"

definition passes_allowed :: "(nat \<Rightarrow> int) \<Rightarrow> nat \<Rightarrow> int \<Rightarrow> nat \<Rightarrow> bool" where
  "passes_allowed clock k end_time n \<longleftrightarrow>
     (\<forall>i<n. clock (k + i) < end_time) \<and> \<not> clock (k + n) < end_time"

section \<open>A small game for the examples\<close>

text \<open>
  A row of cells; the coordinate \<open>(0, i)\<close> is cell \<open>i\<close>. The legal moves are the empty
  cells, from left to right; a move writes the player into the cell; the owner of cell 1
  has won (a row of one cell has no winner). The generator is a counter: a draw from
  \<open>a .. b\<close> is \<open>a + g mod (b - a + 1)\<close>. The clock \<open>affine_clock a d\<close> starts at \<open>a\<close>
  and advances by \<open>d\<close> with every reading; \<open>int\<close> is the clock that starts at 0 and
  advances by 1.
\<close>

fun empty_cells :: "int \<Rightarrow> Cell_state list \<Rightarrow> coord list" where
  "empty_cells i [] = []"
| "empty_cells i (c # cs) =
     (if c = Empty then (0, i) # empty_cells (i + 1) cs else empty_cells (i + 1) cs)"

definition line_winner :: "Cell_state list \<Rightarrow> Cell_state" where
  "line_winner b = (case b of c0 # c1 # rest \<Rightarrow> c1 | _ \<Rightarrow> Empty)"

text \<open>The logarithm of the examples is correctly rounded.\<close>

fun rounded_log :: "double \<Rightarrow> double" where
  "rounded_log NaN = NaN"
| "rounded_log NegInf = NaN"
| "rounded_log PosInf = PosInf"
| "rounded_log (Finite a) =
     (if a < 0 then NaN else if a = 0 then NegInf else to_double (ln a))"

definition affine_clock :: "int \<Rightarrow> int \<Rightarrow> nat \<Rightarrow> int" where
  "affine_clock a d k = a + d * int k"

definition line_env :: "(nat \<Rightarrow> int) \<Rightarrow> (Cell_state list, nat) environment" where
  "line_env clock =
     \<lparr>get_valid_moves = empty_cells 0,
      make_move = (\<lambda>x y p b. b[nat y := p]),
      check_winner = line_winner,
      uniform_int = (\<lambda>a b g. (a + int g mod (b - a + 1), Suc g)),
      now = clock,
      hardware_concurrency = 2,
      std_log = rounded_log\<rparr>"

text \<open>
  A second game, which keeps the contract above: the board counts the moves made,
  there is always a legal move, and Blue has won once two moves were made.
\<close>

definition count_env :: "(nat, nat) environment" where
  "count_env =
     \<lparr>get_valid_moves = (\<lambda>b. [(0, int b)]),
      make_move = (\<lambda>x y p b. Suc b),
      check_winner = (\<lambda>b. if 2 \<le> b then Blue else Empty),
      uniform_int = (\<lambda>a b g. (a + int g mod (b - a + 1), Suc g)),
      now = int,
      hardware_concurrency = 1,
      std_log = rounded_log\<rparr>"

text \<open>
  An agent that has not searched yet, in single-threaded mode, with exploration factor
  \<open>c\<close> and time budget \<open>d\<close>, before the board \<open>b\<close>.
\<close>

definition line_start :: "double \<Rightarrow> int \<Rightarrow> Cell_state list \<Rightarrow> (Cell_state list, nat) state" where
  "line_start c d b =
     \<lparr>exploration_factor = c, max_decision_time = d, is_parallelized = False,
      random_generator = 0, root_node = None, nodes = [], clock_reads = 0, caller_board = b\<rparr>"

text \<open>
  The states that a search for Blue on two empty cells leaves, with budget 3 and
  exploration factor 1: after one pass (the rollout from the first cell lets Red take
  the second and win) and after two passes (the rollout from the second cell wins at
  once).
\<close>

definition line_after_one :: "(Cell_state list, nat) state" where
  "line_after_one =
     \<lparr>exploration_factor = Finite 1, max_decision_time = 3, is_parallelized = False,
      random_generator = 1, root_node = Some 0,
      nodes = [\<lparr>win_count = 0, visit_count = 1, move = (- 1, - 1), player = Blue,
                 child_nodes = [1, 2], parent_node = None\<rparr>,
               \<lparr>win_count = 0, visit_count = 1, move = (0, 0), player = Blue,
                 child_nodes = [], parent_node = Some 0\<rparr>,
               \<lparr>win_count = 0, visit_count = 0, move = (0, 1), player = Blue,
                 child_nodes = [], parent_node = Some 0\<rparr>],
      clock_reads = 3, caller_board = [Empty, Empty]\<rparr>"

definition line_after_two :: "(Cell_state list, nat) state" where
  "line_after_two =
     \<lparr>exploration_factor = Finite 1, max_decision_time = 3, is_parallelized = False,
      random_generator = 1, root_node = Some 0,
      nodes = [\<lparr>win_count = 1, visit_count = 2, move = (- 1, - 1), player = Blue,
                 child_nodes = [1, 2], parent_node = None\<rparr>,
               \<lparr>win_count = 0, visit_count = 1, move = (0, 0), player = Blue,
                 child_nodes = [], parent_node = Some 0\<rparr>,
               \<lparr>win_count = 1, visit_count = 1, move = (0, 1), player = Blue,
                 child_nodes = [], parent_node = Some 0\<rparr>],
      clock_reads = 4, caller_board = [Empty, Empty]\<rparr>"

text \<open>The state that a search leaves on a board without legal moves, when no pass was made.\<close>

definition line_no_moves_after :: "Cell_state \<Rightarrow> int \<Rightarrow> Cell_state list \<Rightarrow> (Cell_state list, nat) state" where
  "line_no_moves_after p d b =
     (line_start (Finite 1) d b)\<lparr>root_node := Some 0,
        nodes := [make_Node p (- 1, - 1) None], clock_reads := 2\<rparr>"

text \<open>
  A root with four children after three passes: the first three children were visited
  once each, the fourth never.
\<close>

definition overflow_heap :: "Node list" where
  "overflow_heap =
     [\<lparr>win_count = 2, visit_count = 3, move = (- 1, - 1), player = Blue,
        child_nodes = [1, 2, 3, 4], parent_node = None\<rparr>,
      \<lparr>win_count = 1, visit_count = 1, move = (0, 0), player = Blue,
        child_nodes = [], parent_node = Some 0\<rparr>,
      \<lparr>win_count = 0, visit_count = 1, move = (0, 1), player = Blue,
        child_nodes = [], parent_node = Some 0\<rparr>,
      \<lparr>win_count = 1, visit_count = 1, move = (0, 2), player = Blue,
        child_nodes = [], parent_node = Some 0\<rparr>,
      \<lparr>win_count = 0, visit_count = 0, move = (0, 3), player = Blue,
        child_nodes = [], parent_node = Some 0\<rparr>]"

text \<open>
  Two children whose exact win ratios differ and whose computed ratios are the same
  double, and two children whose scores differ by 1 before the last rounding.
\<close>

definition tie_heap :: "Node list" where
  "tie_heap =
     [\<lparr>win_count = 268435455, visit_count = 268435457, move = (- 1, - 1), player = Blue,
        child_nodes = [1, 2], parent_node = None\<rparr>,
      \<lparr>win_count = 134217727, visit_count = 134217728, move = (0, 0), player = Blue,
        child_nodes = [], parent_node = Some 0\<rparr>,
      \<lparr>win_count = 134217728, visit_count = 134217729, move = (0, 1), player = Blue,
        child_nodes = [], parent_node = Some 0\<rparr>]"

definition absorb_heap :: "Node list" where
  "absorb_heap =
     [\<lparr>win_count = 1, visit_count = 2, move = (- 1, - 1), player = Blue,
        child_nodes = [1, 2], parent_node = None\<rparr>,
      \<lparr>win_count = 0, visit_count = 1, move = (0, 0), player = Blue,
        child_nodes = [], parent_node = Some 0\<rparr>,
      \<lparr>win_count = 1, visit_count = 1, move = (0, 1), player = Blue,
        child_nodes = [], parent_node = Some 0\<rparr>]"

section \<open>Properties of the model\<close>

subsection \<open>Backpropagation keeps the bound and the shape of the store\<close>

lemma credit_counts:
  "visit_count (credit w n) = visit_count n + 1"
  "win_count (credit w n) = win_count n + (if w = player n then 1 else 0)"
  "move (credit w n) = move n" "player (credit w n) = player n"
  "child_nodes (credit w n) = child_nodes n" "parent_node (credit w n) = parent_node n"
  by (simp_all add: credit_def Let_def)

lemma node_ok_credit: "node_ok n \<Longrightarrow> node_ok (credit w n)"
  by (simp add: node_ok_def credit_counts)

lemma erase_credit: "erase_counters (credit w n) = erase_counters n"
  by (simp add: erase_counters_def credit_def Let_def)

lemma heap_ok_drop_iff:
  "heap_ok (drop k h) \<longleftrightarrow> (\<forall>i<length h. k \<le> i \<longrightarrow> node_ok (h ! i))"
proof
  assume ok: "heap_ok (drop k h)"
  show "\<forall>i<length h. k \<le> i \<longrightarrow> node_ok (h ! i)"
  proof (intro allI impI)
    fix i assume "i < length h" "k \<le> i"
    then have "i - k < length (drop k h)" "drop k h ! (i - k) = h ! i" by simp_all
    with ok show "node_ok (h ! i)" unfolding heap_ok_def list_all_length by metis
  qed
next
  assume "\<forall>i<length h. k \<le> i \<longrightarrow> node_ok (h ! i)"
  then show "heap_ok (drop k h)"
    unfolding heap_ok_def list_all_length by simp
qed

lemma heap_ok_credit: "heap_ok (drop k h) \<Longrightarrow> heap_ok (drop k (h[a := credit w (h ! a)]))"
  unfolding heap_ok_drop_iff
  by (metis length_list_update node_ok_credit nth_list_update_eq nth_list_update_neq)

lemma erase_update_credit:
  "map erase_counters (h[a := credit w (h ! a)]) = map erase_counters h"
proof (cases "a < length h")
  case True
  then show ?thesis by (simp add: map_update erase_credit list_update_same_conv)
next
  case False
  then show ?thesis by (simp add: list_update_beyond)
qed

lemma backpropagate_preserves:
  assumes step: "\<And>h a w. Q h \<Longrightarrow> Q (h[a := credit w (h ! a)])"
    and run: "backpropagate w cur h = Some h'"
  shows "Q h \<longrightarrow> Q h'"
proof (rule backpropagate.raw_induct [where P = "\<lambda>w cur h h'. Q h \<longrightarrow> Q h'", OF _ run])
  fix bp w cur h h'
  assume ih: "\<And>w cur h y. bp w cur h = Some y \<Longrightarrow> Q h \<longrightarrow> Q y"
    and eq: "(case cur of None \<Rightarrow> Some h
              | Some a \<Rightarrow> let h' = h[a := credit w (h ! a)]
                          in bp w (parent_node (h' ! a)) h') = Some h'"
  show "Q h \<longrightarrow> Q h'"
  proof (cases cur)
    case None
    with eq show ?thesis by simp
  next
    case (Some a)
    with eq have "bp w (parent_node (h[a := credit w (h ! a)] ! a)) (h[a := credit w (h ! a)]) = Some h'"
      by (simp add: Let_def)
    then have "Q (h[a := credit w (h ! a)]) \<longrightarrow> Q h'"
      by (rule ih)
    moreover have "Q h \<Longrightarrow> Q (h[a := credit w (h ! a)])"
      by (rule step)
    ultimately show ?thesis by blast
  qed
qed

lemma backpropagate_heap_ok:
  assumes "backpropagate w cur h = Some h'" and "heap_ok (drop k h)"
  shows "heap_ok (drop k h')"
proof -
  have "heap_ok (drop k h) \<longrightarrow> heap_ok (drop k h')"
    by (rule backpropagate_preserves [OF _ assms(1)]) (rule heap_ok_credit)
  with assms(2) show ?thesis by simp
qed

lemma backpropagate_erase:
  assumes "backpropagate w cur h = Some h'"
  shows "map erase_counters h' = map erase_counters h"
proof -
  have "map erase_counters h = map erase_counters h \<longrightarrow> map erase_counters h' = map erase_counters h"
    by (rule backpropagate_preserves [OF _ assms]) (simp only: erase_update_credit)
  then show ?thesis by simp
qed

lemma backpropagate_all_heap_ok:
  "backpropagate_all ws node h = Some h' \<Longrightarrow> heap_ok (drop k h) \<Longrightarrow> heap_ok (drop k h')"
  by (induction ws arbitrary: h) (auto split: option.splits dest: backpropagate_heap_ok)

lemma backpropagate_all_erase:
  "backpropagate_all ws node h = Some h' \<Longrightarrow> map erase_counters h' = map erase_counters h"
proof (induction ws arbitrary: h)
  case Nil
  then show ?case by simp
next
  case (Cons w ws)
  then obtain h1 where a: "backpropagate w (Some node) h = Some h1"
    and b: "backpropagate_all ws node h1 = Some h'"
    by (auto split: option.splits)
  from Cons.IH [OF b] backpropagate_erase [OF a] show ?case by simp
qed

subsection \<open>What one pass and the whole loop may change\<close>

lemma counters_only_trans:
  assumes "counters_only s s1" and "counters_only s1 s2"
  shows "counters_only s s2"
proof -
  from assms(1) obtain g h k where 1: "s1 = s\<lparr>random_generator := g, nodes := h, clock_reads := k\<rparr>"
    and 2: "map erase_counters h = map erase_counters (nodes s)"
    and 3: "\<forall>k. heap_ok (drop k (nodes s)) \<longrightarrow> heap_ok (drop k h)"
    unfolding counters_only_def by blast
  from assms(2) obtain g' h' k' where 4: "s2 = s1\<lparr>random_generator := g', nodes := h', clock_reads := k'\<rparr>"
    and 5: "map erase_counters h' = map erase_counters (nodes s1)"
    and 6: "\<forall>k. heap_ok (drop k (nodes s1)) \<longrightarrow> heap_ok (drop k h')"
    unfolding counters_only_def by blast
  have "s2 = s\<lparr>random_generator := g', nodes := h', clock_reads := k'\<rparr>"
    using 1 4 by simp
  moreover have "map erase_counters h' = map erase_counters (nodes s)"
    using 1 2 5 by simp
  moreover have "\<forall>k. heap_ok (drop k (nodes s)) \<longrightarrow> heap_ok (drop k h')"
    using 1 3 6 by simp
  ultimately show ?thesis unfolding counters_only_def by blast
qed

lemma counters_only_clock: "counters_only s (s\<lparr>clock_reads := k\<rparr>)"
  unfolding counters_only_def
  by (rule exI [of _ "random_generator s"], rule exI [of _ "nodes s"], rule exI [of _ k]) simp

lemma counters_only_heap:
  assumes "map erase_counters h = map erase_counters (nodes s)"
    and "\<And>k. heap_ok (drop k (nodes s)) \<Longrightarrow> heap_ok (drop k h)"
  shows "counters_only s (s\<lparr>random_generator := g, nodes := h\<rparr>)"
  unfolding counters_only_def
  by (rule exI [of _ g], rule exI [of _ h], rule exI [of _ "clock_reads s"]) (use assms in simp)

lemma iteration_Defined:
  assumes "iteration env r s = Some (Defined s')"
  shows "\<exists>c g h. select_child env (exploration_factor s) (nodes s) r = Defined c \<and>
           s' = s\<lparr>random_generator := g, nodes := h\<rparr> \<and>
           ((\<exists>ws. backpropagate_all ws c (nodes s) = Some h) \<or>
            (\<exists>w. backpropagate w (Some c) (nodes s) = Some h))"
proof (cases "select_child env (exploration_factor s) (nodes s) r")
  case Undefined_behaviour
  with assms show ?thesis by (simp add: iteration_def)
next
  case (Defined c)
  show ?thesis
  proof (cases "is_parallelized s")
    case True
    let ?pb = "playout_batch env (hardware_concurrency env) (nodes s) c (caller_board s) (random_generator s)"
    from assms Defined True have eq:
      "(case ?pb of None \<Rightarrow> None | Some Undefined_behaviour \<Rightarrow> Some Undefined_behaviour
        | Some (Defined (results, rng')) \<Rightarrow>
            (case backpropagate_all results c (nodes s) of None \<Rightarrow> None
             | Some h' \<Rightarrow> Some (Defined (s\<lparr>random_generator := rng', nodes := h'\<rparr>))))
       = Some (Defined s')"
      by (simp add: iteration_def)
    then obtain ws g where pb: "?pb = Some (Defined (ws, g))"
      by (cases ?pb) (auto split: result.splits)
    with eq obtain h where "backpropagate_all ws c (nodes s) = Some h"
      "s' = s\<lparr>random_generator := g, nodes := h\<rparr>"
      by (cases "backpropagate_all ws c (nodes s)") auto
    with Defined show ?thesis by blast
  next
    case False
    let ?sp = "simulate_random_playout env (nodes s) c (caller_board s) (random_generator s)"
    from assms Defined False have eq:
      "(case ?sp of None \<Rightarrow> None | Some Undefined_behaviour \<Rightarrow> Some Undefined_behaviour
        | Some (Defined (playout_winner, rng')) \<Rightarrow>
            (case backpropagate playout_winner (Some c) (nodes s) of None \<Rightarrow> None
             | Some h' \<Rightarrow> Some (Defined (s\<lparr>random_generator := rng', nodes := h'\<rparr>))))
       = Some (Defined s')"
      by (simp add: iteration_def)
    then obtain w g where sp: "?sp = Some (Defined (w, g))"
      by (cases ?sp) (auto split: result.splits)
    with eq obtain h where "backpropagate w (Some c) (nodes s) = Some h"
      "s' = s\<lparr>random_generator := g, nodes := h\<rparr>"
      by (cases "backpropagate w (Some c) (nodes s)") auto
    with Defined show ?thesis by blast
  qed
qed

lemma iteration_counters_only:
  assumes "iteration env r s = Some (Defined s')"
  shows "counters_only s s'"
proof -
  from iteration_Defined [OF assms] obtain c g h where
    s': "s' = s\<lparr>random_generator := g, nodes := h\<rparr>" and
    bp: "(\<exists>ws. backpropagate_all ws c (nodes s) = Some h) \<or>
         (\<exists>w. backpropagate w (Some c) (nodes s) = Some h)"
    by blast
  from bp have "map erase_counters h = map erase_counters (nodes s)"
    using backpropagate_all_erase backpropagate_erase by blast
  moreover from bp have "heap_ok (drop k (nodes s)) \<Longrightarrow> heap_ok (drop k h)" for k
    using backpropagate_all_heap_ok backpropagate_heap_ok by blast
  ultimately show ?thesis unfolding s' by (rule counters_only_heap)
qed

lemma search_loop_counters_only:
  assumes run: "search_loop env r end_time s = Some (Defined s')"
  shows "counters_only s s'"
proof -
  have "\<And>res. search_loop env r end_time s = Some res \<Longrightarrow> \<forall>s'. res = Defined s' \<longrightarrow> counters_only s s'"
  proof -
    fix res
    assume run': "search_loop env r end_time s = Some res"
    show "\<forall>s'. res = Defined s' \<longrightarrow> counters_only s s'"
    proof (rule search_loop.raw_induct
        [where P = "\<lambda>env r end_time s res. \<forall>s'. res = Defined s' \<longrightarrow> counters_only s s'", OF _ run'])
      fix sl :: "('a, 'b) environment \<Rightarrow> nat \<Rightarrow> int \<Rightarrow> ('a, 'b) state \<Rightarrow> ('a, 'b) state result option"
      fix env r end_time s res
      assume ih: "\<And>env r end_time s y. sl env r end_time s = Some y \<Longrightarrow>
                    \<forall>s'. y = Defined s' \<longrightarrow> counters_only s s'"
        and eq: "(let t = now env (clock_reads s); s1 = s\<lparr>clock_reads := clock_reads s + 1\<rparr>
                  in if t < end_time
                     then case iteration env r s1 of None \<Rightarrow> None
                          | Some Undefined_behaviour \<Rightarrow> Some Undefined_behaviour
                          | Some (Defined s2) \<Rightarrow> sl env r end_time s2
                     else Some (Defined s1)) = Some res"
      show "\<forall>s'. res = Defined s' \<longrightarrow> counters_only s s'"
      proof (intro allI impI)
        fix s'
        assume res: "res = Defined s'"
        show "counters_only s s'"
        proof (cases "now env (clock_reads s) < end_time")
          case True
          let ?it = "iteration env r (s\<lparr>clock_reads := clock_reads s + 1\<rparr>)"
          from eq True res have eq':
            "(case ?it of None \<Rightarrow> None | Some Undefined_behaviour \<Rightarrow> Some Undefined_behaviour
              | Some (Defined s2) \<Rightarrow> sl env r end_time s2) = Some (Defined s')"
            by (simp add: Let_def)
          then obtain s2 where it: "?it = Some (Defined s2)"
            by (cases ?it) (auto split: result.splits)
          from eq' have rest: "sl env r end_time s2 = Some (Defined s')"
            by (simp only: it option.case result.case)
          have "counters_only s (s\<lparr>clock_reads := clock_reads s + 1\<rparr>)"
            by (rule counters_only_clock)
          then have "counters_only s s2"
            using iteration_counters_only [OF it] by (rule counters_only_trans)
          moreover from ih [OF rest] have "counters_only s2 s'" by simp
          ultimately show ?thesis by (rule counters_only_trans)
        next
          case False
          with eq res have "s' = s\<lparr>clock_reads := clock_reads s + 1\<rparr>" by (simp add: Let_def)
          then show ?thesis by (simp add: counters_only_clock)
        qed
      qed
    qed
  qed
  from this [OF run] show ?thesis by simp
qed

subsection \<open>Rounding to the nearest double\<close>

lemma round_even_cases: "round_even x = \<lfloor>x\<rfloor> \<or> round_even x = \<lfloor>x\<rfloor> + 1"
  by (simp add: round_even_def Let_def)

lemma round_even_of_int: "round_even (of_int n) = n"
  by (simp add: round_even_def)

lemma round_even_mono:
  assumes "x \<le> y"
  shows "round_even x \<le> round_even y"
proof (cases "\<lfloor>x\<rfloor> = \<lfloor>y\<rfloor>")
  case True
  with assms show ?thesis by (auto simp add: round_even_def Let_def)
next
  case False
  with assms have "\<lfloor>x\<rfloor> < \<lfloor>y\<rfloor>" using floor_mono [OF assms] by linarith
  moreover have "round_even x \<le> \<lfloor>x\<rfloor> + 1" using round_even_cases [of x] by linarith
  moreover have "\<lfloor>y\<rfloor> \<le> round_even y" using round_even_cases [of y] by linarith
  ultimately show ?thesis by linarith
qed


lemma quantum_pos: "0 < quantum x"
  by (simp add: quantum_def)

text \<open>The binade of a positive number.\<close>

lemma floor_log2:
  assumes "0 < x"
  shows "2 powr of_int \<lfloor>log 2 x\<rfloor> \<le> x" and "x < 2 powr (of_int \<lfloor>log 2 x\<rfloor> + 1)"
proof -
  have b: "1 < (2::real)" by simp
  show "2 powr of_int \<lfloor>log 2 x\<rfloor> \<le> x"
    using le_log_iff [OF b assms, of "of_int \<lfloor>log 2 x\<rfloor>"] by simp
  have "log 2 x < of_int \<lfloor>log 2 x\<rfloor> + 1" by linarith
  then show "x < 2 powr (of_int \<lfloor>log 2 x\<rfloor> + 1)"
    using log_less_iff [OF b assms, of "of_int \<lfloor>log 2 x\<rfloor> + 1"] by blast
qed

lemma floor_log2_eq:
  assumes "0 < x" and "2 powr of_int k \<le> x" and "x < 2 powr (of_int k + 1)"
  shows "\<lfloor>log 2 x\<rfloor> = k"
proof (rule floor_unique)
  show "of_int k \<le> log 2 x" using assms by (simp add: le_log_iff)
  show "log 2 x < of_int k + 1" using assms by (simp add: log_less_iff)
qed

lemma quantum_eq:
  assumes "0 < x" and "2 powr of_int k \<le> x" and "x < 2 powr (of_int k + 1)" and "- 1022 \<le> k"
  shows "quantum x = 2 powr (of_int k - 52)"
  using floor_log2_eq [OF assms(1-3)] assms(1,4) by (simp add: quantum_def binade_def max_def)

lemma round_binary64_0: "round_binary64 0 = 0"
  by (simp add: round_binary64_def)

lemma round_binary64_exact:
  assumes "x / quantum x = of_int m"
  shows "round_binary64 x = x"
proof (cases "x = 0")
  case True
  then show ?thesis by (simp add: round_binary64_def)
next
  case False
  have "round_binary64 x = of_int m * quantum x"
    using False by (simp add: round_binary64_def assms round_even_of_int)
  also have "\<dots> = x / quantum x * quantum x" by (simp add: assms)
  also have "\<dots> = x" using quantum_pos [of x] by simp
  finally show ?thesis .
qed

lemma round_binary64_nonneg:
  assumes "0 \<le> x"
  shows "0 \<le> round_binary64 x"
proof (cases "x = 0")
  case True
  then show ?thesis by (simp add: round_binary64_def)
next
  case False
  have "0 \<le> x / quantum x" using assms quantum_pos [of x] by simp
  from round_even_mono [OF this] have "0 \<le> round_even (x / quantum x)"
    using round_even_of_int [of 0] by simp
  then show ?thesis using False quantum_pos [of x] by (simp add: round_binary64_def)
qed

lemma quantum_binade: "quantum x = 2 powr (of_int (binade x) - 52)"
  by (simp add: quantum_def)

lemma binade_upper:
  assumes "0 < x"
  shows "x < 2 powr (of_int (binade x) + 1)"
proof -
  have "x < 2 powr (of_int \<lfloor>log 2 x\<rfloor> + 1)" using assms by (rule floor_log2)
  also have "\<dots> \<le> 2 powr (of_int (binade x) + 1)"
    using assms by (intro powr_mono) (simp_all add: binade_def)
  finally show ?thesis .
qed

lemma binade_lower:
  assumes "0 < x" and "- 1022 \<le> \<lfloor>log 2 x\<rfloor>"
  shows "2 powr of_int (binade x) \<le> x"
proof -
  have "binade x = \<lfloor>log 2 x\<rfloor>" using assms by (simp add: binade_def)
  then show ?thesis using floor_log2(1) [OF assms(1)] by simp
qed

lemma binade_mono:
  assumes "0 < x" and "x \<le> y"
  shows "binade x \<le> binade y"
proof -
  have "log 2 x \<le> log 2 y" using assms by simp
  then have "\<lfloor>log 2 x\<rfloor> \<le> \<lfloor>log 2 y\<rfloor>" by (rule floor_mono)
  then show ?thesis using assms by (simp add: binade_def)
qed

lemma powr_split_53: "(2::real) powr (of_int e + 1) = 2 ^ 53 * 2 powr (of_int e - 52)"
proof -
  have "(2::real) powr (of_int e + 1) = 2 powr (53 + (of_int e - 52))"
    by (rule arg_cong [where f = "\<lambda>z. 2 powr z"]) simp
  also have "\<dots> = 2 powr 53 * 2 powr (of_int e - 52)" by (rule powr_add)
  finally show ?thesis by simp
qed

lemma powr_split_52: "(2::real) powr (of_int e) = 2 ^ 52 * 2 powr (of_int e - 52)"
proof -
  have "(2::real) powr (of_int e) = 2 powr (52 + (of_int e - 52))"
    by (rule arg_cong [where f = "\<lambda>z. 2 powr z"]) simp
  also have "\<dots> = 2 powr 52 * 2 powr (of_int e - 52)" by (rule powr_add)
  finally show ?thesis by simp
qed

lemma round_binary64_upper:
  assumes "0 < x"
  shows "round_binary64 x \<le> 2 powr (of_int (binade x) + 1)"
proof -
  let ?q = "quantum x"
  have q: "0 < ?q" by (rule quantum_pos)
  have "x \<le> 2 ^ 53 * ?q"
    using binade_upper [OF assms] unfolding powr_split_53 quantum_binade by simp
  then have "x / ?q \<le> of_int (2 ^ 53)" using q by (simp add: pos_divide_le_eq)
  from round_even_mono [OF this] have "round_even (x / ?q) \<le> 2 ^ 53"
    unfolding round_even_of_int .
  then have "real_of_int (round_even (x / ?q)) \<le> 2 ^ 53"
    by (metis of_int_le_iff of_int_numeral of_int_power)
  then have "of_int (round_even (x / ?q)) * ?q \<le> 2 ^ 53 * ?q"
    using q by (intro mult_right_mono) simp_all
  then show ?thesis
    using assms unfolding powr_split_53 quantum_binade [symmetric]
    by (simp add: round_binary64_def)
qed

lemma round_binary64_lower:
  assumes "0 < x" and "- 1022 \<le> \<lfloor>log 2 x\<rfloor>"
  shows "2 powr of_int (binade x) \<le> round_binary64 x"
proof -
  let ?q = "quantum x"
  have q: "0 < ?q" by (rule quantum_pos)
  have "2 ^ 52 * ?q \<le> x"
    using binade_lower [OF assms] unfolding powr_split_52 quantum_binade by simp
  then have "of_int (2 ^ 52) \<le> x / ?q" using q by (simp add: pos_le_divide_eq)
  from round_even_mono [OF this] have "2 ^ 52 \<le> round_even (x / ?q)"
    unfolding round_even_of_int .
  then have "2 ^ 52 \<le> real_of_int (round_even (x / ?q))"
    by (metis of_int_le_iff of_int_numeral of_int_power)
  then have "2 ^ 52 * ?q \<le> of_int (round_even (x / ?q)) * ?q"
    using q by (intro mult_right_mono) simp_all
  then show ?thesis
    using assms unfolding powr_split_52 quantum_binade [symmetric]
    by (simp add: round_binary64_def)
qed

text \<open>Rounding is monotone on the non-negative reals.\<close>

lemma round_binary64_mono:
  assumes "0 \<le> x" and "x \<le> y"
  shows "round_binary64 x \<le> round_binary64 y"
proof (cases "x = 0")
  case True
  then show ?thesis using round_binary64_nonneg [of y] assms by (simp add: round_binary64_0)
next
  case False
  with assms have x: "0 < x" and y: "0 < y" by simp_all
  show ?thesis
  proof (cases "binade x = binade y")
    case True
    then have q: "quantum x = quantum y" by (simp add: quantum_binade)
    have "x / quantum y \<le> y / quantum y"
      using assms quantum_pos [of y] by (simp add: divide_right_mono)
    from round_even_mono [OF this]
    have "real_of_int (round_even (x / quantum y)) \<le> real_of_int (round_even (y / quantum y))"
      by simp
    then have "of_int (round_even (x / quantum y)) * quantum y
        \<le> of_int (round_even (y / quantum y)) * quantum y"
      using quantum_pos [of y] by (intro mult_right_mono) simp_all
    then show ?thesis using x y by (simp add: round_binary64_def q)
  next
    case False
    with binade_mono [OF x assms(2)] have lt: "binade x < binade y" by simp
    then have "- 1022 < binade y" unfolding binade_def [of x] by simp
    then have fl: "- 1022 \<le> \<lfloor>log 2 y\<rfloor>" using y by (simp add: binade_def max_def split: if_splits)
    have "round_binary64 x \<le> 2 powr (of_int (binade x) + 1)"
      using x by (rule round_binary64_upper)
    also have "\<dots> \<le> 2 powr of_int (binade y)"
      using lt by (intro powr_mono) simp_all
    also have "\<dots> \<le> round_binary64 y"
      using y fl by (rule round_binary64_lower)
    finally show ?thesis .
  qed
qed

text \<open>Values that rounding leaves as they are.\<close>

lemma round_binary64_dyadic:
  assumes "0 < x" and "2 powr of_int k \<le> x" and "x < 2 powr (of_int k + 1)" and "- 1022 \<le> k"
    and "x / 2 powr (of_int k - 52) = of_int m"
  shows "round_binary64 x = x"
  using assms(5) unfolding quantum_eq [OF assms(1-4), symmetric] by (rule round_binary64_exact)

lemma round_binary64_of_int:
  assumes "0 \<le> n" and "n < 2 ^ 53"
  shows "round_binary64 (of_int n) = of_int n"
proof (cases "n = 0")
  case True
  then show ?thesis by (simp add: round_binary64_0)
next
  case False
  with assms have n: "1 \<le> n" by simp
  let ?x = "real_of_int n"
  let ?e = "\<lfloor>log 2 ?x\<rfloor>"
  have x: "0 < ?x" "1 \<le> ?x" using n by simp_all
  have e0: "0 \<le> ?e" using x by simp
  have "2 powr of_int ?e \<le> ?x" using x(1) by (rule floor_log2)
  also have "?x < 2 ^ 53" using assms(2) by (metis of_int_less_iff of_int_numeral of_int_power)
  also have "(2::real) ^ 53 = 2 powr of_int 53" by simp
  finally have lt: "2 powr real_of_int ?e < 2 powr real_of_int 53" .
  have "real_of_int ?e < real_of_int 53"
    by (rule powr_less_cancel [OF lt]) simp
  then have e: "?e \<le> 52" by linarith
  define j where "j = nat (52 - ?e)"
  have q: "(2::real) powr (of_int ?e - 52) = 1 / 2 ^ j"
  proof -
    have "(2::real) powr (of_int ?e - 52) = 2 powr (- real j)"
      using e by (intro arg_cong [where f = "\<lambda>z. 2 powr z"]) (simp add: j_def)
    also have "\<dots> = 1 / 2 ^ j" by (simp add: powr_minus powr_realpow inverse_eq_divide)
    finally show ?thesis .
  qed
  have d: "?x / 2 powr (of_int ?e - 52) = of_int (n * 2 ^ j)"
    unfolding q by simp
  have m: "- 1022 \<le> ?e" using e0 by linarith
  show ?thesis
    by (rule round_binary64_dyadic [OF x(1) floor_log2 [OF x(1)] m d])
qed

lemma round_binary64_1: "round_binary64 1 = 1"
  using round_binary64_of_int [of 1] by simp

lemma round_binary64_numeral:
  "numeral k < (2::int) ^ 53 \<Longrightarrow> round_binary64 (numeral k) = numeral k"
  using round_binary64_of_int [of "numeral k"] by simp


lemma DBL_MAX_pos: "0 < DBL_MAX"
  by (simp add: DBL_MAX_def)

lemma DBL_MAX_gt_1: "1 < DBL_MAX"
  by (simp add: DBL_MAX_def)

lemma to_double_Finite:
  assumes "0 \<le> x" and "x \<le> c" and "round_binary64 c = c" and "c \<le> DBL_MAX"
  shows "to_double x = Finite (round_binary64 x)" and "0 \<le> round_binary64 x"
    and "round_binary64 x \<le> c"
proof -
  show 1: "0 \<le> round_binary64 x" using assms(1) by (rule round_binary64_nonneg)
  show 2: "round_binary64 x \<le> c"
    using round_binary64_mono [OF assms(1,2)] assms(3) by simp
  from 1 2 assms(4) DBL_MAX_pos show "to_double x = Finite (round_binary64 x)"
    by (simp add: to_double_def Let_def)
qed

lemma round_binary64_2_1024: "round_binary64 (2 ^ 1024) = 2 ^ 1024"
proof -
  have p: "(2::real) powr of_int 1024 = 2 ^ 1024" "(2::real) powr (of_int 1024 + 1) = 2 ^ 1025"
    "(2::real) powr (of_int 1024 - 52) = 2 ^ 972"
    by simp_all
  have "(2::real) ^ 1024 / 2 ^ 972 = of_int (2 ^ 52)" by simp
  then show ?thesis
    by (intro round_binary64_dyadic [where k = 1024 and m = "2 ^ 52"]) (simp_all only: p, simp_all)
qed

lemma to_double_overflow:
  assumes "2 ^ 1024 \<le> x"
  shows "to_double x = PosInf"
proof -
  have "round_binary64 (2 ^ 1024) \<le> round_binary64 x"
    using assms by (intro round_binary64_mono) simp_all
  then have "2 ^ 1024 \<le> round_binary64 x" by (simp only: round_binary64_2_1024)
  moreover have "DBL_MAX < 2 ^ 1024" by (simp add: DBL_MAX_def)
  ultimately show ?thesis by (simp add: to_double_def Let_def)
qed

lemma round_binary64_2: "round_binary64 2 = 2"
  using round_binary64_numeral [of "Num.Bit0 Num.One"] by simp

lemma to_double_0: "to_double 0 = Finite 0"
  using DBL_MAX_pos by (simp add: to_double_def round_binary64_0)

lemma to_double_1: "to_double 1 = Finite 1"
  using DBL_MAX_gt_1 by (simp add: to_double_def round_binary64_1)

lemma to_double_range:
  assumes "a \<le> x" and "x \<le> c" and "0 \<le> a" and "round_binary64 a = a"
    and "round_binary64 c = c" and "c \<le> DBL_MAX"
  shows "\<exists>y. to_double x = Finite y \<and> a \<le> y \<and> y \<le> c"
proof -
  have x: "0 \<le> x" using assms by linarith
  have "round_binary64 a \<le> round_binary64 x"
    using assms(3,1) by (rule round_binary64_mono)
  then have "a \<le> round_binary64 x" by (simp only: assms(4))
  with to_double_Finite(1,3) [OF x assms(2,5,6)] show ?thesis by blast
qed

subsection \<open>The loops, one pass at a time\<close>

lemma playout_loop_won:
  "check_winner env board \<noteq> Empty \<Longrightarrow> playout_loop env board p g = Some (Defined (p, g))"
  by (subst playout_loop.simps) simp

lemma playout_loop_stuck:
  "check_winner env board = Empty \<Longrightarrow> get_valid_moves env board = [] \<Longrightarrow>
   playout_loop env board p g = Some Undefined_behaviour"
  by (subst playout_loop.simps) simp

lemma playout_loop_move:
  assumes "check_winner env board = Empty" and "get_valid_moves env board = ms" and "ms \<noteq> []"
    and "uniform_int env 0 (int (length ms) - 1) g = (k, g')"
    and "0 \<le> k" and "k < int (length ms)"
  shows "playout_loop env board p g =
           playout_loop env (make_move env (fst (ms ! nat k)) (snd (ms ! nat k)) (other_player p) board)
             (other_player p) g'"
proof (cases "check_winner env (make_move env (fst (ms ! nat k)) (snd (ms ! nat k)) (other_player p) board) = Empty")
  case True
  with assms show ?thesis by (subst playout_loop.simps) (simp add: Let_def)
next
  case False
  with assms show ?thesis
    by (subst playout_loop.simps) (simp add: Let_def playout_loop_won)
qed

lemma backpropagate_None: "backpropagate w None h = Some h"
  by (subst backpropagate.simps) simp

lemma backpropagate_Some:
  "backpropagate w (Some a) h =
     backpropagate w (parent_node (h[a := credit w (h ! a)] ! a)) (h[a := credit w (h ! a)])"
  by (subst backpropagate.simps) (simp add: Let_def)

lemma search_loop_stop:
  "\<not> now env (clock_reads s) < end_time \<Longrightarrow>
   search_loop env r end_time s = Some (Defined (s\<lparr>clock_reads := clock_reads s + 1\<rparr>))"
  by (subst search_loop.simps) (simp add: Let_def)

lemma search_loop_go:
  "now env (clock_reads s) < end_time \<Longrightarrow>
   search_loop env r end_time s =
     (case iteration env r (s\<lparr>clock_reads := clock_reads s + 1\<rparr>) of
        None \<Rightarrow> None
      | Some Undefined_behaviour \<Rightarrow> Some Undefined_behaviour
      | Some (Defined s2) \<Rightarrow> search_loop env r end_time s2)"
  by (subst search_loop.simps) (simp add: Let_def)

subsection \<open>Expansion, and the state that a search leaves\<close>

lemma expand_moves_eq:
  "node < length h \<Longrightarrow>
   expand_moves node ms h =
     h[node := (h ! node)\<lparr>child_nodes := child_nodes (h ! node) @ [length h ..< length h + length ms]\<rparr>]
     @ map (\<lambda>m. make_Node (player (h ! node)) m (Some node)) ms"
proof (induction ms arbitrary: h)
  case Nil
  then show ?case by simp
next
  case (Cons m ms)
  let ?new = "make_Node (player (h ! node)) m (Some node)"
  let ?h2 = "h[node := (h ! node)\<lparr>child_nodes := child_nodes (h ! node) @ [length h]\<rparr>] @ [?new]"
  have step: "expand_moves node (m # ms) h = expand_moves node ms ?h2"
    using Cons.prems by (simp add: Let_def nth_append list_update_append)
  have len: "node < length ?h2" using Cons.prems by simp
  have at: "?h2 ! node = (h ! node)\<lparr>child_nodes := child_nodes (h ! node) @ [length h]\<rparr>"
    using Cons.prems by (simp add: nth_append)
  have upt: "[length h ..< Suc (length h + length ms)] = length h # [Suc (length h) ..< Suc (length h + length ms)]"
    by (subst upt_rec) simp
  show ?case
    unfolding step Cons.IH [OF len] at
    using Cons.prems by (simp add: list_update_append upt del: upt_Suc)
qed

lemma expand_root:
  "expand_moves (length h) ms (h @ [make_Node p (- 1, - 1) None]) = h @ fresh_tree p ms (length h)"
  by (simp add: expand_moves_eq fresh_tree_def make_Node_def del: upt_Suc)

lemma choose_move_unfold:
  "choose_move env p s =
     (case search_loop env (length (nodes s)) (now env (clock_reads s) + max_decision_time s)
             (s\<lparr>root_node := Some (length (nodes s)),
                nodes := nodes s @ fresh_tree p (get_valid_moves env (caller_board s)) (length (nodes s)),
                clock_reads := clock_reads s + 1\<rparr>) of
        None \<Rightarrow> None
      | Some Undefined_behaviour \<Rightarrow> Some Undefined_behaviour
      | Some (Defined s4) \<Rightarrow> Some (Defined (best_move (nodes s4) (length (nodes s)), s4)))"
  by (simp add: choose_move_def expand_node_def Let_def expand_root)

lemma heap_ok_fresh_tree: "heap_ok (fresh_tree p ms r)"
  by (simp add: heap_ok_def fresh_tree_def node_ok_def make_Node_def list_all_iff)

lemma heap_ok_append: "heap_ok (h @ h') \<longleftrightarrow> heap_ok h \<and> heap_ok h'"
  by (simp add: heap_ok_def)

lemma erase_counters_fields:
  assumes "erase_counters n = erase_counters n'"
  shows "move n = move n'" "player n = player n'" "child_nodes n = child_nodes n'"
    "parent_node n = parent_node n'"
proof -
  have "move (erase_counters n) = move (erase_counters n')"
    "player (erase_counters n) = player (erase_counters n')"
    "child_nodes (erase_counters n) = child_nodes (erase_counters n')"
    "parent_node (erase_counters n) = parent_node (erase_counters n')"
    using assms by simp_all
  then show "move n = move n'" "player n = player n'" "child_nodes n = child_nodes n'"
    "parent_node n = parent_node n'"
    by (simp_all add: erase_counters_def)
qed

lemma erase_counters_nth:
  assumes "map erase_counters h' = map erase_counters h" and "a < length h"
  shows "erase_counters (h' ! a) = erase_counters (h ! a)"
proof -
  from assms(1) have len: "length h' = length h" by (rule map_eq_imp_length_eq)
  from assms(1) have "map erase_counters h' ! a = map erase_counters h ! a" by simp
  with assms(2) len show ?thesis by simp
qed

lemma choose_move_Defined:
  assumes run: "choose_move env p s = Some (Defined (res, s'))"
  defines "r \<equiv> length (nodes s)"
  defines "ms \<equiv> get_valid_moves env (caller_board s)"
  shows "res = best_move (nodes s') r"
    and "caller_board s' = caller_board s"
    and "exploration_factor s' = exploration_factor s"
    and "max_decision_time s' = max_decision_time s"
    and "is_parallelized s' = is_parallelized s"
    and "root_node s' = Some r"
    and "map erase_counters (nodes s') = map erase_counters (nodes s @ fresh_tree p ms r)"
    and "\<And>k. k \<le> length (nodes s) \<Longrightarrow> heap_ok (drop k (nodes s)) \<Longrightarrow> heap_ok (drop k (nodes s'))"
proof -
  let ?s3 = "s\<lparr>root_node := Some r, nodes := nodes s @ fresh_tree p ms r,
               clock_reads := clock_reads s + 1\<rparr>"
  let ?sl = "search_loop env r (now env (clock_reads s) + max_decision_time s) ?s3"
  from run have eq: "(case ?sl of None \<Rightarrow> None
      | Some Undefined_behaviour \<Rightarrow> Some Undefined_behaviour
      | Some (Defined s4) \<Rightarrow> Some (Defined (best_move (nodes s4) r, s4))) = Some (Defined (res, s'))"
    unfolding choose_move_unfold r_def ms_def .
  then obtain s4 where sl: "?sl = Some (Defined s4)"
    by (cases ?sl) (auto split: result.splits)
  from eq [unfolded sl] have "best_move (nodes s4) r = res \<and> s4 = s'"
    by auto
  then have res: "res = best_move (nodes s4) r" and s4: "s4 = s'"
    by auto
  from search_loop_counters_only [OF sl] obtain g h k where
    form: "s' = ?s3\<lparr>random_generator := g, nodes := h, clock_reads := k\<rparr>"
    and er: "map erase_counters h = map erase_counters (nodes ?s3)"
    and ok: "\<forall>k. heap_ok (drop k (nodes ?s3)) \<longrightarrow> heap_ok (drop k h)"
    unfolding counters_only_def s4 by blast
  show "res = best_move (nodes s') r" using res s4 by blast
  show "caller_board s' = caller_board s" by (simp add: form)
  show "exploration_factor s' = exploration_factor s" by (simp add: form)
  show "max_decision_time s' = max_decision_time s" by (simp add: form)
  show "is_parallelized s' = is_parallelized s" by (simp add: form)
  show "root_node s' = Some r" by (simp add: form)
  show "map erase_counters (nodes s') = map erase_counters (nodes s @ fresh_tree p ms r)"
    using er by (simp add: form)
  show "heap_ok (drop k (nodes s'))" if "k \<le> length (nodes s)" "heap_ok (drop k (nodes s))" for k
    using ok that by (simp add: form heap_ok_append heap_ok_fresh_tree)
qed

subsection \<open>The example runs\<close>

text \<open>
  The rules that evaluate a search on the small game, and the two runs: with the clock
  that advances by one per reading the budget of 3 allows two passes, with the clock that
  advances by two it allows one.
\<close>

lemmas run_simps = choose_move_def line_env_def line_start_def expand_node_def Let_def make_Node_def
      search_loop_go search_loop_stop iteration_def select_child_def calculate_uct_score_def
      simulate_random_playout_def playout_loop_won playout_loop_move playout_loop_stuck
      backpropagate_None backpropagate_Some credit_def best_move_def double_of_int_def
      line_winner_def other_player_def DBL_MAX_pos nth_append
      round_binary64_0 round_binary64_1 round_binary64_numeral to_double_0 to_double_1

lemma line_run_two:
  "choose_move (line_env int) Blue (line_start (Finite 1) 3 [Empty, Empty]) =
     Some (Defined (Inr (0, 1), line_after_two))"
  by (simp add: run_simps line_after_two_def)

lemma line_run_one:
  "choose_move (line_env (affine_clock 0 2)) Blue (line_start (Finite 1) 3 [Empty, Empty]) =
     Some (Defined (Inr (0, 0), line_after_one))"
  by (simp add: run_simps line_after_one_def affine_clock_def)

subsection \<open>The final scan\<close>

lemma ratio_rounded:
  assumes "node_ok n" and "0 < visit_count n"
  shows "to_double (round_binary64 (of_int (win_count n)) / round_binary64 (of_int (visit_count n)))
           = Finite (win_ratio n)"
    and "0 \<le> win_ratio n" and "win_ratio n \<le> 1"
proof -
  let ?a = "round_binary64 (of_int (win_count n))"
  let ?d = "round_binary64 (of_int (visit_count n))"
  have w: "0 \<le> real_of_int (win_count n)" "real_of_int (win_count n) \<le> real_of_int (visit_count n)"
    and v: "1 \<le> real_of_int (visit_count n)"
    using assms by (simp_all add: node_ok_def)
  have a: "0 \<le> ?a" using w(1) by (rule round_binary64_nonneg)
  have ad: "?a \<le> ?d" using w by (rule round_binary64_mono)
  have "round_binary64 1 \<le> ?d" using v by (intro round_binary64_mono) simp_all
  then have d: "1 \<le> ?d" by (simp only: round_binary64_1)
  have q: "0 \<le> ?a / ?d" "?a / ?d \<le> 1" using a ad d by simp_all
  from to_double_Finite [OF q round_binary64_1] DBL_MAX_gt_1
  show "to_double (?a / ?d) = Finite (win_ratio n)"
    and "0 \<le> win_ratio n" and "win_ratio n \<le> 1"
    by (simp_all add: win_ratio_def)
qed

lemma ratio_double:
  assumes "node_ok n"
  shows "ddiv_int (double_of_int (win_count n)) (visit_count n) =
           (if visit_count n = 0 then NaN else Finite (win_ratio n))"
proof (cases "visit_count n = 0")
  case True
  with assms have "win_count n = 0" by (simp add: node_ok_def)
  with True show ?thesis by (simp add: double_of_int_def round_binary64_0)
next
  case False
  with assms have "0 < visit_count n" by (simp add: node_ok_def)
  from ratio_rounded(1) [OF assms this] False show ?thesis
    by (simp add: double_of_int_def)
qed

lemma win_ratio_bounds:
  "node_ok n \<Longrightarrow> 0 < visit_count n \<Longrightarrow> 0 \<le> win_ratio n \<and> win_ratio n \<le> 1"
  using ratio_rounded(2,3) by blast


lemma rounded_tie:
  "round_binary64 (134217728 / 134217729) = 134217727 / 134217728"
proof -
  let ?x = "134217728 / 134217729 :: real"
  have q: "quantum ?x = 2 powr (of_int (- 1) - 52)"
    by (rule quantum_eq) (simp_all add: powr_minus_divide)
  then have q': "quantum ?x = 1 / 2 ^ 53" by (simp add: powr_minus_divide)
  have "round_even (?x / quantum ?x) = 2 ^ 53 - 2 ^ 26"
    unfolding q' by (simp add: round_even_def Let_def)
  then show ?thesis
    unfolding round_binary64_def q' by simp
qed


lemma best_scan_Cons:
  assumes "node_ok (h ! c)"
  shows "best_scan h (c # cs) (Finite m) best =
           (if 0 < visit_count (h ! c) \<and> m < win_ratio (h ! c)
            then best_scan h cs (Finite (win_ratio (h ! c))) (Some c)
            else best_scan h cs (Finite m) best)"
proof -
  have "0 \<le> visit_count (h ! c)" using assms by (simp add: node_ok_def)
  then show ?thesis
    unfolding best_scan.simps Let_def ratio_double [OF assms]
    by (cases "visit_count (h ! c) = 0") auto
qed

lemma best_scan_keep:
  assumes "\<forall>c\<in>set cs. node_ok (h ! c)"
    and "\<forall>c\<in>set cs. visit_count (h ! c) \<le> 0 \<or> win_ratio (h ! c) \<le> m"
  shows "best_scan h cs (Finite m) best = best"
  using assms
proof (induction cs)
  case Nil
  then show ?case by simp
next
  case (Cons c cs)
  then have "node_ok (h ! c)" by simp
  from best_scan_Cons [OF this] Cons show ?case
    by (auto simp del: best_scan.simps)
qed


lemma best_scan_Some:
  assumes "\<forall>c\<in>set cs. node_ok (h ! c)"
  shows "\<exists>b. best_scan h cs (Finite m) (Some a) = Some b"
  using assms
proof (induction cs arbitrary: m a)
  case Nil
  then show ?case by simp
next
  case (Cons c cs)
  then have "node_ok (h ! c)" by simp
  from best_scan_Cons [OF this] Cons show ?case
    by (simp del: best_scan.simps)
qed

lemma best_scan_finds:
  assumes "\<forall>c\<in>set cs. node_ok (h ! c)"
    and "\<exists>c\<in>set cs. 0 < visit_count (h ! c) \<and> m < win_ratio (h ! c)"
  shows "\<exists>b. best_scan h cs (Finite m) best = Some b"
  using assms
proof (induction cs)
  case Nil
  then show ?case by simp
next
  case (Cons c cs)
  then have ok: "node_ok (h ! c)" and oks: "\<forall>c\<in>set cs. node_ok (h ! c)" by simp_all
  show ?case
  proof (cases "0 < visit_count (h ! c) \<and> m < win_ratio (h ! c)")
    case True
    then have "best_scan h (c # cs) (Finite m) best = best_scan h cs (Finite (win_ratio (h ! c))) (Some c)"
      by (simp add: best_scan_Cons [OF ok] del: best_scan.simps)
    with best_scan_Some [OF oks] show ?thesis by simp
  next
    case False
    have "best_scan h (c # cs) (Finite m) best = best_scan h cs (Finite m) best"
      unfolding best_scan_Cons [OF ok] by (simp only: False if_False)
    moreover from False Cons.prems(2) have "\<exists>c\<in>set cs. 0 < visit_count (h ! c) \<and> m < win_ratio (h ! c)"
      by auto
    ultimately show ?thesis using Cons.IH [OF oks] by simp
  qed
qed

subsection \<open>The tree after a search\<close>

lemma fresh_tree_nth:
  "fresh_tree p ms r ! 0 = (make_Node p (- 1, - 1) None)\<lparr>child_nodes := [r + 1 ..< r + 1 + length ms]\<rparr>"
  "i < length ms \<Longrightarrow> fresh_tree p ms r ! Suc i = make_Node p (ms ! i) (Some r)"
  "length (fresh_tree p ms r) = Suc (length ms)"
  by (simp_all add: fresh_tree_def)

lemma choose_move_tree:
  assumes run: "choose_move env p s = Some (Defined (res, s'))"
  defines "r \<equiv> length (nodes s)"
  defines "ms \<equiv> get_valid_moves env (caller_board s)"
  shows "length (nodes s') = r + 1 + length ms"
    and "child_nodes (nodes s' ! r) = [r + 1 ..< r + 1 + length ms]"
    and "player (nodes s' ! r) = p"
    and "\<And>i. i < length ms \<Longrightarrow> move (nodes s' ! (r + 1 + i)) = ms ! i"
    and "\<And>i. i < length ms \<Longrightarrow> player (nodes s' ! (r + 1 + i)) = p"
    and "\<And>i. i < length ms \<Longrightarrow> parent_node (nodes s' ! (r + 1 + i)) = Some r"
    and "\<forall>c\<in>set (child_nodes (nodes s' ! r)). node_ok (nodes s' ! c)"
proof -
  let ?h = "nodes s @ fresh_tree p ms r"
  have er: "map erase_counters (nodes s') = map erase_counters ?h"
    using choose_move_Defined(7) [OF run] unfolding r_def ms_def .
  then have "length (nodes s') = length ?h" by (rule map_eq_imp_length_eq)
  then show len: "length (nodes s') = r + 1 + length ms"
    by (simp add: fresh_tree_nth r_def)
  have root: "erase_counters (nodes s' ! r) = erase_counters (?h ! r)"
    by (rule erase_counters_nth [OF er]) (simp add: fresh_tree_nth r_def)
  have hr: "?h ! r = fresh_tree p ms r ! 0"
    by (simp add: nth_append r_def)
  show ch: "child_nodes (nodes s' ! r) = [r + 1 ..< r + 1 + length ms]"
    using erase_counters_fields(3) [OF root] unfolding hr fresh_tree_nth by simp
  show "player (nodes s' ! r) = p"
    using erase_counters_fields(2) [OF root] unfolding hr fresh_tree_nth by (simp add: make_Node_def)
  have child: "erase_counters (nodes s' ! (r + 1 + i)) = erase_counters (make_Node p (ms ! i) (Some r))"
    if "i < length ms" for i
  proof -
    have "erase_counters (nodes s' ! (r + 1 + i)) = erase_counters (?h ! (r + 1 + i))"
      by (rule erase_counters_nth [OF er]) (use that in \<open>simp add: fresh_tree_nth r_def\<close>)
    moreover have "?h ! (r + 1 + i) = fresh_tree p ms r ! Suc i"
      by (simp add: nth_append r_def)
    ultimately show ?thesis using that by (simp add: fresh_tree_nth)
  qed
  show "move (nodes s' ! (r + 1 + i)) = ms ! i" if "i < length ms" for i
    using erase_counters_fields(1) [OF child [OF that]] by (simp add: make_Node_def)
  show "player (nodes s' ! (r + 1 + i)) = p" if "i < length ms" for i
    using erase_counters_fields(2) [OF child [OF that]] by (simp add: make_Node_def)
  show "parent_node (nodes s' ! (r + 1 + i)) = Some r" if "i < length ms" for i
    using erase_counters_fields(4) [OF child [OF that]] by (simp add: make_Node_def)
  have "heap_ok (drop r (nodes s'))"
    using choose_move_Defined(8) [OF run, of r] by (simp add: r_def heap_ok_def)
  then have "\<forall>i<length (nodes s'). r \<le> i \<longrightarrow> node_ok (nodes s' ! i)"
    by (simp add: heap_ok_drop_iff)
  then show "\<forall>c\<in>set (child_nodes (nodes s' ! r)). node_ok (nodes s' ! c)"
    unfolding ch len by (auto simp del: upt_Suc)
qed

subsection \<open>When the final scan fails\<close>

lemma best_move_fails_iff:
  assumes "\<forall>c\<in>set (child_nodes (h ! r)). node_ok (h ! c)"
  shows "best_move h r = Inl insufficient_statistics \<longleftrightarrow>
         (\<forall>c\<in>set (child_nodes (h ! r)). visit_count (h ! c) \<le> 0)"
proof
  assume "\<forall>c\<in>set (child_nodes (h ! r)). visit_count (h ! c) \<le> 0"
  then have "best_scan h (child_nodes (h ! r)) (Finite (- 1)) None = None"
    using assms by (intro best_scan_keep) auto
  then show "best_move h r = Inl insufficient_statistics"
    by (simp add: best_move_def insufficient_statistics_def)
next
  assume fails: "best_move h r = Inl insufficient_statistics"
  show "\<forall>c\<in>set (child_nodes (h ! r)). visit_count (h ! c) \<le> 0"
  proof (rule ccontr)
    assume "\<not> (\<forall>c\<in>set (child_nodes (h ! r)). visit_count (h ! c) \<le> 0)"
    then obtain c where c: "c \<in> set (child_nodes (h ! r))" "0 < visit_count (h ! c)" by force
    with assms have "0 \<le> win_ratio (h ! c)" using win_ratio_bounds by blast
    with c have "\<exists>c\<in>set (child_nodes (h ! r)). 0 < visit_count (h ! c) \<and> - 1 < win_ratio (h ! c)"
      by force
    from best_scan_finds [OF assms this]
    obtain b where "best_scan h (child_nodes (h ! r)) (Finite (- 1)) None = Some b" by blast
    with fails show False by (simp add: best_move_def)
  qed
qed

lemma best_scan_range:
  "best_scan h cs m best = best \<or> (\<exists>c\<in>set cs. best_scan h cs m best = Some c)"
proof (induction cs arbitrary: m best)
  case Nil
  then show ?case by simp
next
  case (Cons c cs)
  let ?x = "ddiv_int (double_of_int (win_count (h ! c))) (visit_count (h ! c))"
  show ?case
  proof (cases "dgt ?x m")
    case True
    then have "best_scan h (c # cs) m best = best_scan h cs ?x (Some c)" by simp
    with Cons.IH [of ?x "Some c"] show ?thesis by auto
  next
    case False
    then have "best_scan h (c # cs) m best = best_scan h cs m best" by simp
    with Cons.IH [of m best] show ?thesis by auto
  qed
qed

lemma best_move_total:
  "best_move h r = Inl insufficient_statistics \<or>
   (\<exists>c\<in>set (child_nodes (h ! r)). best_move h r = Inr (move (h ! c)))"
  using best_scan_range [of h "child_nodes (h ! r)" "Finite (- 1)" None]
  by (auto simp: best_move_def insufficient_statistics_def)

subsection \<open>The rollout and its relation\<close>

lemma rollout_playout_loop:
  "rollout env board p g w g' \<Longrightarrow> playout_loop env board p g = Some (Defined (w, g'))"
proof (induction rule: rollout.induct)
  case (rollout_won board p g)
  then show ?case by (rule playout_loop_won)
next
  case (rollout_move board g k g' m p w g'')
  have "playout_loop env board p g =
      playout_loop env (make_move env (fst m) (snd m) (other_player p) board) (other_player p) g'"
    unfolding rollout_move(6)
    by (rule playout_loop_move [OF rollout_move(1) refl rollout_move(2,3,4,5)])
  with rollout_move.IH show ?case by simp
qed

lemma playout_loop_rollout:
  assumes "playout_loop env board p g = Some (Defined (w, g'))"
  shows "rollout env board p g w g'"
proof -
  have "\<forall>w g'. res = Defined (w, g') \<longrightarrow> rollout env board p g w g'"
    if "playout_loop env board p g = Some res" for res
  proof (rule playout_loop.raw_induct
      [where P = "\<lambda>env board p g res. \<forall>w g'. res = Defined (w, g') \<longrightarrow> rollout env board p g w g'",
        OF _ that], goal_cases)
    case (1 pl env board p g res)
    note ih = 1(1) and eq = 1(2)
    show ?case
    proof (intro allI impI)
      fix w g' assume res: "res = Defined (w, g')"
      show "rollout env board p g w g'"
      proof (cases "check_winner env board = Empty")
        case False
        with eq res have "w = p" "g' = g" by simp_all
        with False show ?thesis by (simp add: rollout_won)
      next
        case True
        let ?ms = "get_valid_moves env board"
        obtain k g1 where draw: "uniform_int env 0 (int (length ?ms) - 1) g = (k, g1)"
          by (cases "uniform_int env 0 (int (length ?ms) - 1) g")
        let ?b' = "make_move env (fst (?ms ! nat k)) (snd (?ms ! nat k)) (other_player p) board"
        from eq True have eq1:
          "(if ?ms = [] then Some Undefined_behaviour
            else if k < 0 \<or> int (length ?ms) \<le> k then Some Undefined_behaviour
            else if check_winner env ?b' \<noteq> Empty then Some (Defined (other_player p, g1))
            else pl env ?b' (other_player p) g1) = Some res"
          by (simp only: if_True Let_def draw prod.case simp_thms)
        have ne: "?ms \<noteq> []"
        proof
          assume "?ms = []"
          with eq1 res show False by simp
        qed
        have range: "0 \<le> k \<and> k < int (length ?ms)"
        proof (rule ccontr)
          assume "\<not> (0 \<le> k \<and> k < int (length ?ms))"
          then have "k < 0 \<or> int (length ?ms) \<le> k" by linarith
          with eq1 ne res show False by simp
        qed
        then have nr: "\<not> (k < 0 \<or> int (length ?ms) \<le> k)" by linarith
        from eq1 have eq2:
          "(if check_winner env ?b' \<noteq> Empty then Some (Defined (other_player p, g1))
            else pl env ?b' (other_player p) g1) = Some res"
          by (simp only: ne nr if_False)
        have step: "rollout env ?b' (other_player p) g1 w g'"
        proof (cases "check_winner env ?b' = Empty")
          case False
          with eq2 res have "w = other_player p" "g' = g1" by simp_all
          with False show ?thesis by (simp add: rollout_won)
        next
          case True
          with eq2 res have "pl env ?b' (other_player p) g1 = Some (Defined (w, g'))"
            by simp
          from ih [OF this] show ?thesis by simp
        qed
        from range have "0 \<le> k" and "k < int (length ?ms)" by simp_all
        then show ?thesis
          by (rule rollout_move [OF True ne draw _ _ refl step])
      qed
    qed
  qed
  from this [OF assms] show ?thesis by simp
qed

lemma playout_loop_defined:
  assumes run: "playout_loop env board p g = Some res" and contract: "board_contract env"
  shows "res \<noteq> Undefined_behaviour"
proof (rule playout_loop.raw_induct
    [where P = "\<lambda>e board p g res. e = env \<longrightarrow> res \<noteq> Undefined_behaviour",
      OF _ run, THEN mp, OF _ refl], goal_cases)
  case (1 pl e board p g res)
  note ih = 1(1) and eq = 1(2)
  show ?case
  proof
    assume e: "e = env"
    show "res \<noteq> Undefined_behaviour"
    proof (cases "check_winner env board = Empty")
      case False
      with eq e show ?thesis by auto
    next
      case True
      let ?ms = "get_valid_moves env board"
      obtain k g1 where draw: "uniform_int env 0 (int (length ?ms) - 1) g = (k, g1)"
        by (cases "uniform_int env 0 (int (length ?ms) - 1) g")
      let ?b' = "make_move env (fst (?ms ! nat k)) (snd (?ms ! nat k)) (other_player p) board"
      have ne: "?ms \<noteq> []" using contract True by (simp add: board_contract_def)
      then have "0 < int (length ?ms)" by simp
      with contract have "0 \<le> fst (uniform_int env 0 (int (length ?ms) - 1) g) \<and>
          fst (uniform_int env 0 (int (length ?ms) - 1) g) < int (length ?ms)"
        unfolding board_contract_def by blast
      then have nr: "\<not> (k < 0 \<or> int (length ?ms) \<le> k)" by (simp add: draw)
      from eq True e have
        "(if ?ms = [] then Some Undefined_behaviour
          else if k < 0 \<or> int (length ?ms) \<le> k then Some Undefined_behaviour
          else if check_winner env ?b' \<noteq> Empty then Some (Defined (other_player p, g1))
          else pl env ?b' (other_player p) g1) = Some res"
        by (simp only: if_True Let_def draw prod.case simp_thms)
      then have eq2:
        "(if check_winner env ?b' \<noteq> Empty then Some (Defined (other_player p, g1))
          else pl env ?b' (other_player p) g1) = Some res"
        by (simp only: ne nr if_False)
      show ?thesis
      proof (cases "check_winner env ?b' = Empty")
        case False
        with eq2 show ?thesis by auto
      next
        case True
        with eq2 have "pl env ?b' (other_player p) g1 = Some res" by simp
        from ih [OF this] show ?thesis by simp
      qed
    qed
  qed
qed

lemma board_contract_count_env: "board_contract count_env"
  by (auto simp: board_contract_def count_env_def)

subsection \<open>The clock decides the number of passes and nothing else\<close>

lemma iteration_clock_reads:
  assumes "iteration env r s = Some (Defined s')"
  shows "clock_reads s' = clock_reads s"
  using iteration_Defined [OF assms] by auto

lemma passes_allowed_Suc:
  "passes_allowed clock k e (Suc n) \<longleftrightarrow> clock k < e \<and> passes_allowed clock (Suc k) e n"
proof -
  have "(\<forall>i<Suc n. clock (k + i) < e) \<longleftrightarrow> clock k < e \<and> (\<forall>i<n. clock (Suc k + i) < e)"
    by (auto simp: less_Suc_eq_0_disj)
  then show ?thesis by (simp add: passes_allowed_def)
qed

lemma search_loop_passes:
  "passes_allowed (now env) (clock_reads s) e n \<Longrightarrow>
   search_loop env r e s = search_passes env r n s"
proof (induction n arbitrary: s)
  case 0
  then show ?case by (simp add: passes_allowed_def search_loop_stop)
next
  case (Suc n)
  then have lt: "now env (clock_reads s) < e"
    and rest: "passes_allowed (now env) (Suc (clock_reads s)) e n"
    by (simp_all add: passes_allowed_Suc)
  let ?it = "iteration env r (s\<lparr>clock_reads := clock_reads s + 1\<rparr>)"
  show ?case
  proof (cases ?it)
    case None
    then show ?thesis by (simp add: search_loop_go [OF lt])
  next
    case (Some res)
    show ?thesis
    proof (cases res)
      case Undefined_behaviour
      with Some show ?thesis by (simp add: search_loop_go [OF lt])
    next
      case (Defined s2)
      with Some have it: "?it = Some (Defined s2)" by simp
      from iteration_clock_reads [OF it] have "clock_reads s2 = Suc (clock_reads s)" by simp
      with rest have "passes_allowed (now env) (clock_reads s2) e n" by simp
      from Suc.IH [OF this] it show ?thesis by (simp add: search_loop_go [OF lt])
    qed
  qed
qed

lemma playout_loop_now_Some:
  assumes "playout_loop env board p g = Some y"
  shows "playout_loop (env\<lparr>now := c\<rparr>) board p g = Some y"
proof (rule playout_loop.raw_induct
    [where P = "\<lambda>env board p g y. playout_loop (env\<lparr>now := c\<rparr>) board p g = Some y",
      OF _ assms], goal_cases)
  case (1 pl env board p g y)
  note ih = 1(1) and eq = 1(2)
  show ?case
  proof (cases "check_winner env board = Empty")
    case False
    with eq show ?thesis by (simp add: playout_loop_won)
  next
    case True
    let ?ms = "get_valid_moves env board"
    obtain k g1 where draw: "uniform_int env 0 (int (length ?ms) - 1) g = (k, g1)"
      by (cases "uniform_int env 0 (int (length ?ms) - 1) g")
    let ?b' = "make_move env (fst (?ms ! nat k)) (snd (?ms ! nat k)) (other_player p) board"
    from eq True have eq1:
      "(if ?ms = [] then Some Undefined_behaviour
        else if k < 0 \<or> int (length ?ms) \<le> k then Some Undefined_behaviour
        else if check_winner env ?b' \<noteq> Empty then Some (Defined (other_player p, g1))
        else pl env ?b' (other_player p) g1) = Some y"
      by (simp only: if_True Let_def draw prod.case simp_thms)
    have unfold: "playout_loop (env\<lparr>now := c\<rparr>) board p g =
      (if ?ms = [] then Some Undefined_behaviour
        else if k < 0 \<or> int (length ?ms) \<le> k then Some Undefined_behaviour
        else if check_winner env ?b' \<noteq> Empty then Some (Defined (other_player p, g1))
        else playout_loop (env\<lparr>now := c\<rparr>) ?b' (other_player p) g1)"
      by (subst playout_loop.simps) (simp add: True draw Let_def)
    consider (none) "?ms = []"
      | (range) "?ms \<noteq> []" "k < 0 \<or> int (length ?ms) \<le> k"
      | (won) "?ms \<noteq> []" "\<not> (k < 0 \<or> int (length ?ms) \<le> k)" "check_winner env ?b' \<noteq> Empty"
      | (more) "?ms \<noteq> []" "\<not> (k < 0 \<or> int (length ?ms) \<le> k)" "\<not> check_winner env ?b' \<noteq> Empty"
      by blast
    then show ?thesis
    proof cases
      case none
      from eq1 have "Some Undefined_behaviour = Some y" by (simp only: none if_True simp_thms)
      then show ?thesis unfolding unfold by (simp only: none if_True simp_thms)
    next
      case range
      from eq1 have "Some Undefined_behaviour = Some y" by (simp only: range if_True if_False simp_thms)
      then show ?thesis unfolding unfold by (simp only: range if_True if_False simp_thms)
    next
      case won
      from eq1 have "Some (Defined (other_player p, g1)) = Some y"
        by (simp only: won if_True if_False simp_thms)
      then show ?thesis unfolding unfold by (simp only: won if_True if_False simp_thms)
    next
      case more
      from eq1 have "pl env ?b' (other_player p) g1 = Some y"
        by (simp only: more if_True if_False simp_thms)
      from ih [OF this] show ?thesis unfolding unfold by (simp only: more if_True if_False simp_thms)
    qed
  qed
qed

lemma playout_loop_now:
  "playout_loop (env\<lparr>now := c\<rparr>) board p g = playout_loop env board p g"
proof (cases "playout_loop env board p g")
  case (Some y)
  then show ?thesis by (simp add: playout_loop_now_Some)
next
  case None
  show ?thesis
  proof (cases "playout_loop (env\<lparr>now := c\<rparr>) board p g")
    case (Some y)
    from playout_loop_now_Some [OF this, of "now env"] None show ?thesis by simp
  next
    case None': None
    with None show ?thesis by simp
  qed
qed

lemma simulate_random_playout_now:
  "simulate_random_playout (env\<lparr>now := c\<rparr>) h node board g =
   simulate_random_playout env h node board g"
  by (simp add: simulate_random_playout_def Let_def playout_loop_now)

lemma playout_batch_now:
  "playout_batch (env\<lparr>now := c\<rparr>) n h node board g = playout_batch env n h node board g"
  by (induction n arbitrary: g)
     (simp_all add: simulate_random_playout_now split: option.splits result.splits)

lemma calculate_uct_score_now:
  "calculate_uct_score (env\<lparr>now := c\<rparr>) cf h child par = calculate_uct_score env cf h child par"
  by (simp add: calculate_uct_score_def)

lemma select_scan_now:
  "select_scan (env\<lparr>now := c\<rparr>) cf h par cs best m = select_scan env cf h par cs best m"
  by (induction cs arbitrary: best m) (simp_all add: calculate_uct_score_now Let_def)

lemma select_child_now:
  "select_child (env\<lparr>now := c\<rparr>) cf h par = select_child env cf h par"
  by (simp add: select_child_def select_scan_now calculate_uct_score_now split: list.splits)

lemma iteration_now: "iteration (env\<lparr>now := c\<rparr>) r s = iteration env r s"
  by (simp add: iteration_def select_child_now simulate_random_playout_now playout_batch_now
      split: option.splits result.splits)

lemma search_passes_now:
  "search_passes (env\<lparr>now := c\<rparr>) r n s = search_passes env r n s"
  by (induction n arbitrary: s) (simp_all add: iteration_now split: option.splits result.splits)

subsection \<open>The selector\<close>

lemma select_scan_keep:
  "\<forall>d\<in>set cs. \<not> dgt (calculate_uct_score env cf h d par) m \<Longrightarrow>
   select_scan env cf h par cs best m = best"
  by (induction cs) simp_all

lemma select_scan_first:
  assumes "\<forall>d\<in>set pre. dgt (calculate_uct_score env cf h b par) (calculate_uct_score env cf h d par)"
    and "dgt (calculate_uct_score env cf h b par) m"
    and "\<forall>d\<in>set post. \<not> dgt (calculate_uct_score env cf h d par) (calculate_uct_score env cf h b par)"
  shows "select_scan env cf h par (pre @ b # post) best m = b"
  using assms
proof (induction pre arbitrary: best m)
  case Nil
  then show ?case by (simp add: select_scan_keep)
next
  case (Cons a pre)
  then show ?case by (simp add: Let_def)
qed

lemma select_child_first:
  assumes "child_nodes (h ! par) = pre @ b # post"
    and "\<forall>d\<in>set pre. dgt (calculate_uct_score env cf h b par) (calculate_uct_score env cf h d par)"
    and "\<forall>d\<in>set post. \<not> dgt (calculate_uct_score env cf h d par) (calculate_uct_score env cf h b par)"
  shows "select_child env cf h par = Defined b"
proof (cases pre)
  case Nil
  with assms show ?thesis by (simp add: select_child_def select_scan_keep)
next
  case (Cons a pre')
  with assms(2) have "\<forall>d\<in>set pre'. dgt (calculate_uct_score env cf h b par) (calculate_uct_score env cf h d par)"
    and "dgt (calculate_uct_score env cf h b par) (calculate_uct_score env cf h a par)"
    by simp_all
  from select_scan_first [OF this assms(3)] Cons assms(1) show ?thesis
    by (simp add: select_child_def)
qed

lemma uct_score_visited:
  "visit_count (h ! c) \<noteq> 0 \<Longrightarrow>
   calculate_uct_score env cf h c par = uct_formula env cf (h ! c) (h ! par)"
  by (simp add: calculate_uct_score_def uct_formula_def)

subsection \<open>A score that overflows\<close>

lemma anchor_33_32: "round_binary64 (33 / 32) = 33 / 32"
  by (rule round_binary64_dyadic [where k = 0 and m = "33 * 2 ^ 47"])
     (simp_all add: powr_minus_divide)

lemma anchor_129_128: "round_binary64 (129 / 128) = 129 / 128"
  by (rule round_binary64_dyadic [where k = 0 and m = "129 * 2 ^ 45"])
     (simp_all add: powr_minus_divide)

lemma ln3_lower: "33 / 32 \<le> ln (3::real)"
proof -
  have "exp (33 / 256 :: real) \<le> 1 + 33 / 256 + (33 / 256)\<^sup>2"
    by (rule exp_bound) simp_all
  then have "exp (33 / 256 :: real) ^ 8 \<le> (1 + 33 / 256 + (33 / 256)\<^sup>2) ^ 8"
    by (intro power_mono) simp_all
  moreover have "exp (33 / 32 :: real) = exp (33 / 256) ^ 8"
    using exp_of_nat_mult [of 8 "33 / 256 :: real"] by simp
  moreover have "(1 + 33 / 256 + (33 / 256)\<^sup>2) ^ 8 < (3::real)"
    by (simp add: power2_eq_square eval_nat_numeral)
  ultimately have "exp (33 / 32 :: real) \<le> 3" by linarith
  then have "ln (exp (33 / 32 :: real)) \<le> ln 3"
    by (subst ln_le_cancel_iff) simp_all
  then show ?thesis by simp
qed

lemma ln3_upper: "ln (3::real) \<le> 2"
  using ln_le_minus_one [of "3::real"] by simp

lemma sqrt_anchor: "33 / 32 \<le> x \<Longrightarrow> 129 / 128 \<le> sqrt x"
  by (rule real_le_rsqrt) (simp add: power2_eq_square)

lemma DBL_MAX_overflow: "129 / 128 \<le> s \<Longrightarrow> 2 ^ 1024 \<le> DBL_MAX * s"
proof -
  assume "129 / 128 \<le> s"
  then have "DBL_MAX * (129 / 128) \<le> DBL_MAX * s"
    using DBL_MAX_pos by (intro mult_left_mono) simp_all
  moreover have "2 ^ 1024 \<le> DBL_MAX * (129 / 128)"
    by (simp add: DBL_MAX_def)
  ultimately show ?thesis by linarith
qed

text \<open>
  With the largest finite double as exploration factor, the score of a child visited
  once under a parent visited three times is infinite.
\<close>

lemma overflow_score:
  assumes "std_log env = rounded_log"
    and "visit_count (h ! c) = 1" and "visit_count (h ! par) = 3"
    and "0 \<le> win_count (h ! c)" and "win_count (h ! c) \<le> 1"
  shows "calculate_uct_score env (Finite DBL_MAX) h c par = PosInf"
proof -
  have two: "round_binary64 2 = 2" "2 \<le> DBL_MAX"
    by (simp_all add: round_binary64_2 DBL_MAX_def)
  from to_double_range [OF ln3_lower ln3_upper _ anchor_33_32 two]
  obtain l where l: "to_double (ln 3) = Finite l" "33 / 32 \<le> l" "l \<le> 2" by auto
  from to_double_range [OF l(2,3) _ anchor_33_32 two]
  obtain m where m: "to_double l = Finite m" "33 / 32 \<le> m" "m \<le> 2" by auto
  have "sqrt m \<le> sqrt 4" using m(3) by (intro real_sqrt_le_mono) simp
  then have "sqrt m \<le> 2" by simp
  from to_double_range [OF sqrt_anchor [OF m(2)] this _ anchor_129_128 two]
  obtain s where s: "to_double (sqrt m) = Finite s" "129 / 128 \<le> s" by auto
  have prod: "to_double (DBL_MAX * s) = PosInf"
    by (rule to_double_overflow [OF DBL_MAX_overflow [OF s(2)]])
  have "0 \<le> real_of_int (win_count (h ! c))" "real_of_int (win_count (h ! c)) \<le> 1"
    using assms(4,5) by simp_all
  from to_double_Finite(1) [OF this round_binary64_1] DBL_MAX_gt_1
  have w: "to_double (real_of_int (win_count (h ! c))) = Finite (round_binary64 (real_of_int (win_count (h ! c))))"
    by simp
  have "0 \<le> round_binary64 (real_of_int (win_count (h ! c)))"
    using assms(4) by (intro round_binary64_nonneg) simp
  moreover have "round_binary64 (real_of_int (win_count (h ! c))) \<le> round_binary64 1"
    using assms(4,5) by (intro round_binary64_mono) simp_all
  ultimately have "0 \<le> round_binary64 (real_of_int (win_count (h ! c)))"
    "round_binary64 (real_of_int (win_count (h ! c))) \<le> 1"
    by (simp_all add: round_binary64_1)
  from to_double_Finite(1) [OF this round_binary64_1] DBL_MAX_gt_1
  obtain r where r: "to_double (round_binary64 (real_of_int (win_count (h ! c)))) = Finite r"
    by simp
  have m0: "l \<noteq> 0" "\<not> m < 0" using l(2) m(2) by simp_all
  show ?thesis
    unfolding calculate_uct_score_def double_of_int_def assms(1-3)
    by (simp add: round_binary64_1 round_binary64_numeral l m s prod r m0)
qed

subsection \<open>The search returns\<close>

lemma select_scan_mem:
  "select_scan env cf h par cs best m = best \<or> select_scan env cf h par cs best m \<in> set cs"
proof (induction cs arbitrary: best m)
  case Nil
  show ?case by simp
next
  case (Cons c cs)
  show ?case
    using Cons [of c "calculate_uct_score env cf h c par"] Cons [of best m]
    by (auto simp add: Let_def)
qed

lemma select_child_mem:
  assumes "child_nodes (h ! par) \<noteq> []"
  shows "\<exists>c\<in>set (child_nodes (h ! par)). select_child env cf h par = Defined c"
proof -
  from assms obtain b cs where ch: "child_nodes (h ! par) = b # cs"
    by (cases "child_nodes (h ! par)") auto
  show ?thesis
    using select_scan_mem [of env cf h par cs b "calculate_uct_score env cf h b par"]
    by (auto simp add: select_child_def ch)
qed













subsection \<open>Ties that rounding makes\<close>

lemma round_even_add_small:
  assumes "0 \<le> r" and "r < 1 / 2"
  shows "round_even (of_int m + r) = m"
proof -
  have "\<lfloor>of_int m + r\<rfloor> = m" using assms by (intro floor_unique) simp_all
  then show ?thesis using assms by (simp add: round_even_def Let_def)
qed

lemma round_binary64_unfold:
  "x \<noteq> 0 \<Longrightarrow> round_binary64 x = of_int (round_even (x / quantum x)) * quantum x"
  by (simp add: round_binary64_def)

text \<open>
  A non-negative addend of less than half a quantum is absorbed: adding it to a double
  and rounding gives the double back.
\<close>

lemma round_binary64_absorb:
  assumes y: "0 < y" and normal: "- 1022 \<le> \<lfloor>log 2 y\<rfloor>"
    and d: "0 \<le> d" "d < quantum y / 2"
  shows "round_binary64 (round_binary64 y + d) = round_binary64 y"
proof -
  let ?b = "binade y"
  let ?q = "quantum y"
  define m where "m = round_even (y / ?q)"
  have q: "0 < ?q" by (rule quantum_pos)
  have ry: "round_binary64 y = of_int m * ?q"
    using y by (simp add: round_binary64_def m_def)
  have lo: "2 ^ 52 * ?q \<le> round_binary64 y"
    using round_binary64_lower [OF y normal] unfolding powr_split_52 quantum_binade .
  have hi: "round_binary64 y \<le> 2 ^ 53 * ?q"
    using round_binary64_upper [OF y] unfolding powr_split_53 quantum_binade .
  have b: "- 1022 \<le> ?b" by (simp add: binade_def)
  let ?x = "round_binary64 y + d"
  have "0 < 2 ^ 52 * ?q" using q by simp
  with lo d have x: "0 < ?x" by linarith
  show ?thesis
  proof (cases "m < 2 ^ 53")
    case True
    then have "m \<le> 2 ^ 53 - 1" by simp
    then have "real_of_int m \<le> real_of_int (2 ^ 53 - 1)" by (simp only: of_int_le_iff)
    then have "real_of_int m * ?q \<le> (2 ^ 53 - 1) * ?q"
      using q by (intro mult_right_mono) simp_all
    moreover have "(2 ^ 53 - 1) * ?q = 2 ^ 53 * ?q - ?q" by (simp add: algebra_simps)
    ultimately have "real_of_int m * ?q \<le> 2 ^ 53 * ?q - ?q" by (simp only:)
    then have "real_of_int m * ?q + d < 2 ^ 53 * ?q" using d q by linarith
    then have "?x < 2 ^ 53 * ?q" by (simp only: ry)
    then have up: "?x < 2 powr (of_int ?b + 1)"
      unfolding powr_split_53 quantum_binade .
    have "2 ^ 52 * ?q \<le> ?x" using lo d by simp
    then have low: "2 powr of_int ?b \<le> ?x"
      unfolding powr_split_52 quantum_binade .
    have qx: "quantum ?x = ?q"
      using quantum_eq [OF x low up b] by (simp add: quantum_binade)
    have "?x / ?q = of_int m + d / ?q" using q by (simp add: ry add_divide_distrib)
    moreover have "0 \<le> d / ?q" "d / ?q < 1 / 2" using d q by (simp_all add: field_simps)
    ultimately have re: "round_even (?x / ?q) = m" by (simp add: round_even_add_small)
    have "round_binary64 ?x = of_int (round_even (?x / quantum ?x)) * quantum ?x"
      by (rule round_binary64_unfold) (use x in simp)
    also have "\<dots> = of_int m * ?q" by (simp only: qx re)
    finally show ?thesis by (simp only: ry)
  next
    case False
    have "real_of_int m * ?q \<le> 2 ^ 53 * ?q" using hi by (simp add: ry)
    then have "real_of_int m \<le> 2 ^ 53" using q by simp
    then have "real_of_int m \<le> real_of_int (2 ^ 53)" by simp
    then have "m \<le> 2 ^ 53" by (simp only: of_int_le_iff)
    with False have m: "m = 2 ^ 53" by simp
    have ry': "round_binary64 y = 2 ^ 53 * ?q" by (simp add: ry m)
    have q2: "2 powr (of_int (?b + 1) - 52) = 2 * ?q"
    proof -
      have "(2::real) powr (of_int (?b + 1) - 52) = 2 powr (1 + (of_int ?b - 52))"
        by (rule arg_cong [where f = "\<lambda>z. 2 powr z"]) simp
      also have "\<dots> = 2 powr 1 * 2 powr (of_int ?b - 52)" by (rule powr_add)
      finally show ?thesis by (simp add: quantum_binade)
    qed
    have low: "2 powr of_int (?b + 1) \<le> ?x"
      using d unfolding powr_split_52 [of "?b + 1"] q2 by (simp add: ry')
    have "?x < 2 ^ 53 * (2 * ?q)" using d q by (simp add: ry')
    then have up: "?x < 2 powr (of_int (?b + 1) + 1)"
      unfolding powr_split_53 [of "?b + 1"] q2 .
    have b1: "- 1022 \<le> ?b + 1" using b by simp
    have qx: "quantum ?x = 2 * ?q"
      using quantum_eq [OF x low up b1] by (simp only: q2)
    have "?x / (2 * ?q) = of_int (2 ^ 52) + d / (2 * ?q)"
      using q by (simp add: ry' add_divide_distrib)
    moreover have "0 \<le> d / (2 * ?q)" "d / (2 * ?q) < 1 / 2" using d q by (simp_all add: field_simps)
    ultimately have re: "round_even (?x / (2 * ?q)) = 2 ^ 52" by (simp only: round_even_add_small)
    have "round_binary64 ?x = of_int (round_even (?x / quantum ?x)) * quantum ?x"
      by (rule round_binary64_unfold) (use x in simp)
    also have "\<dots> = of_int (2 ^ 52) * (2 * ?q)" by (simp only: qx re)
    also have "\<dots> = 2 ^ 53 * ?q" by simp
    finally show ?thesis by (simp only: ry')
  qed
qed

lemma binade_2_55: "binade (2 ^ 55) = 55"
proof -
  have "\<lfloor>log 2 ((2::real) ^ 55)\<rfloor> = 55"
    by (rule floor_log2_eq) simp_all
  then show ?thesis by (simp add: binade_def)
qed

lemma quantum_large:
  assumes "2 ^ 55 \<le> y"
  shows "8 \<le> quantum y" and "- 1022 \<le> \<lfloor>log 2 y\<rfloor>"
proof -
  have "(0::real) < 2 ^ 55" by simp
  with assms have y: "0 < y" by linarith
  have "binade (2 ^ 55) \<le> binade y" using assms by (intro binade_mono) simp_all
  then have b: "55 \<le> binade y" by (simp only: binade_2_55)
  have "(2::real) powr 3 \<le> 2 powr (of_int (binade y) - 52)"
    using b by (intro powr_mono) simp_all
  then show "8 \<le> quantum y" by (simp add: quantum_binade)
  have "55 \<le> log 2 y" using le_log_iff [of 2 y 55] y assms by simp
  then show "- 1022 \<le> \<lfloor>log 2 y\<rfloor>" by linarith
qed


lemma final_scan_tie:
  "exact_ratio (tie_heap ! 1) < exact_ratio (tie_heap ! 2)
   \<and> win_ratio (tie_heap ! 1) = win_ratio (tie_heap ! 2)
   \<and> best_move tie_heap 0 = Inr (0, 0)"
proof -
  have i: "round_binary64 134217727 = 134217727" "round_binary64 134217728 = 134217728"
    "round_binary64 134217729 = 134217729"
    by (simp_all add: round_binary64_numeral)
  have d: "round_binary64 (134217727 / 134217728) = 134217727 / 134217728"
    by (rule round_binary64_dyadic [where k = "- 1" and m = "134217727 * 2 ^ 26"])
       (simp_all add: powr_minus_divide)
  have r1: "win_ratio (tie_heap ! 1) = 134217727 / 134217728"
    by (simp add: tie_heap_def win_ratio_def i d)
  have r2: "win_ratio (tie_heap ! 2) = 134217727 / 134217728"
    by (simp add: tie_heap_def win_ratio_def i rounded_tie)
  have ok: "node_ok (tie_heap ! 1)" "node_ok (tie_heap ! 2)"
    by (simp_all add: tie_heap_def node_ok_def)
  have v: "0 < visit_count (tie_heap ! 1)" "0 < visit_count (tie_heap ! 2)"
    by (simp_all add: tie_heap_def)
  have "best_scan tie_heap [1, 2] (Finite (- 1)) None = Some 1"
    unfolding best_scan_Cons [OF ok(1)] best_scan_Cons [OF ok(2)] r1 r2 using v by simp
  then have "best_move tie_heap 0 = Inr (0, 0)"
    by (simp add: best_move_def tie_heap_def)
  moreover have "exact_ratio (tie_heap ! 1) < exact_ratio (tie_heap ! 2)"
    by (simp add: exact_ratio_def tie_heap_def)
  ultimately show ?thesis using r1 r2 by simp
qed

lemma ln2_bounds: "1 / 2 \<le> ln (2::real)" "ln (2::real) \<le> 1"
proof -
  have "exp (1 / 2 :: real) \<le> 1 + 1 / 2 + (1 / 2)\<^sup>2"
    by (rule exp_bound) simp_all
  also have "\<dots> \<le> 2" by (simp add: power2_eq_square)
  finally show "1 / 2 \<le> ln (2::real)" by (subst ln_ge_iff) simp_all
  show "ln (2::real) \<le> 1" using ln_le_minus_one [of "2::real"] by simp
qed

lemma anchor_half: "round_binary64 (1 / 2) = 1 / 2"
  by (rule round_binary64_dyadic [where k = "- 1" and m = "2 ^ 52"])
     (simp_all add: powr_minus_divide)

lemma anchor_2_57: "round_binary64 (2 ^ 57) = 2 ^ 57"
proof -
  have p: "(2::real) powr of_int 57 = 2 ^ 57" "(2::real) powr (of_int 57 + 1) = 2 ^ 58"
    "(2::real) powr (of_int 57 - 52) = 2 ^ 5"
    by simp_all
  have "(2::real) ^ 57 / 2 ^ 5 = of_int (2 ^ 52)" by simp
  then show ?thesis
    by (intro round_binary64_dyadic [where k = 57 and m = "2 ^ 52"]) (simp_all only: p, simp_all)
qed

text \<open>
  With the exploration factor \<open>10\<^sup>1\<^sup>7\<close> the exploration term is so large that adding
  a win ratio of 0 or of 1 gives the same double: the two children tie and the selector
  keeps the first.
\<close>

lemma select_absorbed:
  "calculate_uct_score (line_env int) (Finite (10 ^ 17)) absorb_heap 1 0
     = calculate_uct_score (line_env int) (Finite (10 ^ 17)) absorb_heap 2 0
   \<and> select_child (line_env int) (Finite (10 ^ 17)) absorb_heap 0 = Defined 1"
proof -
  have one: "round_binary64 1 = 1" "1 \<le> DBL_MAX"
    using DBL_MAX_gt_1 by (simp_all add: round_binary64_1)
  from to_double_range [OF ln2_bounds _ anchor_half one]
  obtain l where l: "to_double (ln 2) = Finite l" "1 / 2 \<le> l" "l \<le> 1" by auto
  from to_double_range [OF l(2,3) _ anchor_half one]
  obtain m where m: "to_double l = Finite m" "1 / 2 \<le> m" "m \<le> 1" by auto
  have "1 / 2 \<le> sqrt m" using m(2) by (intro real_le_rsqrt) (simp add: power2_eq_square)
  moreover have "sqrt m \<le> 1" using m(3) by simp
  ultimately obtain s where s: "to_double (sqrt m) = Finite s" "1 / 2 \<le> s" "s \<le> 1"
    using to_double_range [OF _ _ _ anchor_half one, of "sqrt m"] by auto
  define y where "y = 10 ^ 17 * s"
  have y: "2 ^ 55 \<le> y" "y \<le> 2 ^ 57" "0 \<le> y" using s(2,3) by (simp_all add: y_def)
  have big: "(2::real) ^ 57 \<le> DBL_MAX" by (simp add: DBL_MAX_def)
  note e = to_double_Finite [OF y(3,2) anchor_2_57 big]
  note qy = quantum_large [OF y(1)]
  have y0: "0 < y" using y(1) by (simp add: y_def)
  have absorb: "round_binary64 (round_binary64 y + d) = round_binary64 y" if "d = 0 \<or> d = 1" for d
    using that qy(1) by (intro round_binary64_absorb [OF y0 qy(2)]) auto
  have sum: "to_double (d + round_binary64 y) = Finite (round_binary64 y)" if "d = 0 \<or> d = 1" for d
    using absorb [OF that] e(2,3) big DBL_MAX_pos
    by (simp add: to_double_def Let_def add.commute)
  have lg: "std_log (line_env int) = rounded_log" by (simp add: line_env_def)
  have e': "to_double (100000000000000000 * s) = Finite (round_binary64 y)"
    using e(1) by (simp add: y_def)
  have l0: "l \<noteq> 0" "\<not> m < 0" using l(2) m(2) by simp_all
  have s1: "calculate_uct_score (line_env int) (Finite (10 ^ 17)) absorb_heap 1 0
      = Finite (round_binary64 y)"
    using sum [of 0]
    by (simp add: calculate_uct_score_def absorb_heap_def double_of_int_def lg
        round_binary64_0 round_binary64_1 round_binary64_numeral to_double_0
        l m s l0 e')
  have s2: "calculate_uct_score (line_env int) (Finite (10 ^ 17)) absorb_heap 2 0
      = Finite (round_binary64 y)"
    using sum [of 1]
    by (simp add: calculate_uct_score_def absorb_heap_def double_of_int_def lg
        round_binary64_0 round_binary64_1 round_binary64_numeral to_double_1
        l m s l0 e')
  have c: "child_nodes (absorb_heap ! 0) = [] @ 1 # [2]" by (simp add: absorb_heap_def)
  have "\<not> dgt (calculate_uct_score (line_env int) (Finite (10 ^ 17)) absorb_heap 2 0)
           (calculate_uct_score (line_env int) (Finite (10 ^ 17)) absorb_heap 1 0)"
    unfolding s1 s2 by simp
  then have q: "\<forall>d\<in>set [2].
      \<not> dgt (calculate_uct_score (line_env int) (Finite (10 ^ 17)) absorb_heap d 0)
           (calculate_uct_score (line_env int) (Finite (10 ^ 17)) absorb_heap 1 0)"
    by simp
  have "select_child (line_env int) (Finite (10 ^ 17)) absorb_heap 0 = Defined 1"
    by (rule select_child_first [OF c _ q]) simp
  with s1 s2 show ?thesis by (simp only: simp_thms)
qed

section \<open>The claims\<close>

text \<open>
  Claim C1. Every node is made with both counters at zero. One pass of the
  backpropagation loop adds one to \<open>visit_count\<close> and adds one to \<open>win_count\<close>
  only when the winner is the player of the node, so it keeps
  \<open>0 \<le> win_count \<le> visit_count\<close>; so does a whole backpropagation, so does each pass
  of the search loop, and so does a whole search: if the bound holds for every node of
  the store before \<^verbatim>\<open>choose_move\<close>, it holds for every node after it, and it holds
  for every node of the tree that the search has built (the nodes from address
  \<open>length (nodes s)\<close> on) in any case.
\<close>

theorem counters_invariant:
  "win_count (make_Node p m par) = 0 \<and> visit_count (make_Node p m par) = 0
   \<and> visit_count (credit w n) = visit_count n + 1
   \<and> win_count (credit w n) = win_count n + (if w = player n then 1 else 0)
   \<and> (node_ok n \<longrightarrow> node_ok (credit w n))
   \<and> (heap_ok h \<and> backpropagate w cur h = Some h' \<longrightarrow> heap_ok h')
   \<and> (heap_ok (nodes t) \<and> iteration env r t = Some (Defined t') \<longrightarrow> heap_ok (nodes t'))
   \<and> (heap_ok (nodes s) \<and> choose_move env p s = Some (Defined (res, s')) \<longrightarrow> heap_ok (nodes s'))
   \<and> (choose_move env p s = Some (Defined (res, s')) \<longrightarrow> heap_ok (drop (length (nodes s)) (nodes s')))"
proof -
  have "win_count (make_Node p m par) = 0 \<and> visit_count (make_Node p m par) = 0"
    by (simp add: make_Node_def)
  moreover have "visit_count (credit w n) = visit_count n + 1"
    and "win_count (credit w n) = win_count n + (if w = player n then 1 else 0)"
    by (rule credit_counts)+
  moreover have "node_ok n \<longrightarrow> node_ok (credit w n)"
    by (simp add: node_ok_credit)
  moreover have "heap_ok h \<and> backpropagate w cur h = Some h' \<longrightarrow> heap_ok h'"
    using backpropagate_heap_ok [of w cur h h' 0] by simp
  moreover have "heap_ok (nodes t) \<and> iteration env r t = Some (Defined t') \<longrightarrow> heap_ok (nodes t')"
  proof
    assume a: "heap_ok (nodes t) \<and> iteration env r t = Some (Defined t')"
    then have "counters_only t t'" using iteration_counters_only by blast
    then obtain g h k where "t' = t\<lparr>random_generator := g, nodes := h, clock_reads := k\<rparr>"
      and "heap_ok (drop 0 (nodes t)) \<longrightarrow> heap_ok (drop 0 h)"
      unfolding counters_only_def by blast
    with a show "heap_ok (nodes t')" by simp
  qed
  moreover have "heap_ok (nodes s) \<and> choose_move env p s = Some (Defined (res, s')) \<longrightarrow> heap_ok (nodes s')"
    using choose_move_Defined(8) [of env p s res s' 0] by simp
  moreover have "choose_move env p s = Some (Defined (res, s')) \<longrightarrow> heap_ok (drop (length (nodes s)) (nodes s'))"
    using choose_move_Defined(8) [of env p s res s' "length (nodes s)"] by (simp add: heap_ok_def)
  ultimately show ?thesis by blast
qed

theorem counters_invariant_witness:
  "node_ok (make_Node Blue (0, 1) (Some 0))
   \<and> node_ok (credit Red (make_Node Blue (0, 1) (Some 0)))
   \<and> heap_ok [make_Node Blue (- 1, - 1) None]
   \<and> backpropagate Red (Some 0) [make_Node Blue (- 1, - 1) None]
        = Some [(make_Node Blue (- 1, - 1) None)\<lparr>visit_count := 1\<rparr>]
   \<and> heap_ok [(make_Node Blue (- 1, - 1) None)\<lparr>visit_count := 1\<rparr>]
   \<and> heap_ok (nodes ((line_start (Finite 1) 3 [Empty, Empty])\<lparr>nodes := fresh_tree Blue [(0, 0), (0, 1)] 0\<rparr>))
   \<and> iteration (line_env int) 0
         ((line_start (Finite 1) 3 [Empty, Empty])\<lparr>nodes := fresh_tree Blue [(0, 0), (0, 1)] 0\<rparr>)
       = Some (Defined ((line_start (Finite 1) 3 [Empty, Empty])\<lparr>random_generator := 1,
            nodes := nodes line_after_one\<rparr>))
   \<and> heap_ok (nodes line_after_one)
   \<and> heap_ok (nodes (line_start (Finite 1) 3 [Empty, Empty]))
   \<and> choose_move (line_env int) Blue (line_start (Finite 1) 3 [Empty, Empty])
        = Some (Defined (Inr (0, 1), line_after_two))
   \<and> heap_ok (nodes line_after_two)"
  using counters_invariant [where p = Blue and m = "(0, 1)" and par = "Some 0" and w = Red
      and n = "make_Node Blue (0, 1) (Some 0)" and h = "[make_Node Blue (- 1, - 1) None]"
      and cur = "Some 0" and h' = "[(make_Node Blue (- 1, - 1) None)\<lparr>visit_count := 1\<rparr>]"
      and s = "line_start (Finite 1) 3 [Empty, Empty]" and env = "line_env int"
      and res = "Inr (0, 1)" and s' = line_after_two and r = 0
      and t = "(line_start (Finite 1) 3 [Empty, Empty])\<lparr>nodes := fresh_tree Blue [(0, 0), (0, 1)] 0\<rparr>"
      and t' = "(line_start (Finite 1) 3 [Empty, Empty])\<lparr>random_generator := 1,
            nodes := nodes line_after_one\<rparr>"]
    line_run_two
  by (simp add: run_simps node_ok_def heap_ok_def line_after_two_def line_after_one_def
      fresh_tree_def upt_rec)

text \<open>
  Claim C2, as amended. A child that was never visited scores
  \<^verbatim>\<open>std::numeric_limits<double>::max()\<close>, the largest finite double, not infinity. A
  visited child scores
  \<open>win_count / visit_count + exploration_factor * sqrt (ln parent_visits / visit_count)\<close>
  as double arithmetic computes it: each operation rounded to the nearest double, a
  result beyond the largest double an infinity. On a node with at least one child the
  selector returns one of the children, the first one whose score is greatest: its
  score is greater than that of every child before it, and no child after it has a
  greater score. Scores that differ before the last rounding can be the same double;
  they tie, and the earlier child is kept. So the first unvisited child is selected
  whenever the sentinel is greater than the score of every visited child before it and
  no later score is greater than the sentinel.
\<close>

theorem select_child_first_greatest:
  "(visit_count (h ! u) = 0 \<longrightarrow> calculate_uct_score env cf h u par = Finite DBL_MAX)
   \<and> (visit_count (h ! c) \<noteq> 0 \<longrightarrow>
       calculate_uct_score env cf h c par = uct_formula env cf (h ! c) (h ! par))
   \<and> (child_nodes (h ! par) \<noteq> [] \<longrightarrow>
       (\<exists>a\<in>set (child_nodes (h ! par)). select_child env cf h par = Defined a))
   \<and> (child_nodes (h ! par) = pre @ b # post \<and>
       (\<forall>d\<in>set pre. dgt (calculate_uct_score env cf h b par) (calculate_uct_score env cf h d par)) \<and>
       (\<forall>d\<in>set post. \<not> dgt (calculate_uct_score env cf h d par) (calculate_uct_score env cf h b par)) \<longrightarrow>
       select_child env cf h par = Defined b)
   \<and> (child_nodes (h ! par) = pre @ b # post \<and> visit_count (h ! b) = 0 \<and>
       (\<forall>d\<in>set pre. dgt (Finite DBL_MAX) (calculate_uct_score env cf h d par)) \<and>
       (\<forall>d\<in>set post. \<not> dgt (calculate_uct_score env cf h d par) (Finite DBL_MAX)) \<longrightarrow>
       select_child env cf h par = Defined b)"
proof -
  have 1: "calculate_uct_score env cf h u par = Finite DBL_MAX" if "visit_count (h ! u) = 0" for u
    using that by (simp add: calculate_uct_score_def)
  have 2: "calculate_uct_score env cf h c par = uct_formula env cf (h ! c) (h ! par)"
    if "visit_count (h ! c) \<noteq> 0"
    using that by (rule uct_score_visited)
  have 3: "select_child env cf h par = Defined b"
    if "child_nodes (h ! par) = pre @ b # post"
      "\<forall>d\<in>set pre. dgt (calculate_uct_score env cf h b par) (calculate_uct_score env cf h d par)"
      "\<forall>d\<in>set post. \<not> dgt (calculate_uct_score env cf h d par) (calculate_uct_score env cf h b par)"
    using that by (rule select_child_first)
  have 4: "select_child env cf h par = Defined b"
    if "child_nodes (h ! par) = pre @ b # post" "visit_count (h ! b) = 0"
      "\<forall>d\<in>set pre. dgt (Finite DBL_MAX) (calculate_uct_score env cf h d par)"
      "\<forall>d\<in>set post. \<not> dgt (calculate_uct_score env cf h d par) (Finite DBL_MAX)"
    using that 1 [OF that(2)] by (intro select_child_first) simp_all
  have 5: "\<exists>a\<in>set (child_nodes (h ! par)). select_child env cf h par = Defined a"
    if "child_nodes (h ! par) \<noteq> []"
    using that by (rule select_child_mem)
  from 1 2 3 4 5 show ?thesis by blast
qed

theorem select_child_first_greatest_witness:
  "visit_count (nodes line_after_one ! 2) = 0
   \<and> calculate_uct_score (line_env int) (Finite 1) (nodes line_after_one) 2 0 = Finite DBL_MAX
   \<and> visit_count (nodes line_after_one ! 1) \<noteq> 0
   \<and> uct_formula (line_env int) (Finite 1) (nodes line_after_one ! 1) (nodes line_after_one ! 0)
       = Finite 0
   \<and> calculate_uct_score (line_env int) (Finite 1) (nodes line_after_one) 1 0 = Finite 0
   \<and> child_nodes (nodes line_after_one ! 0) = [1] @ 2 # []
   \<and> dgt (calculate_uct_score (line_env int) (Finite 1) (nodes line_after_one) 2 0)
         (calculate_uct_score (line_env int) (Finite 1) (nodes line_after_one) 1 0)
   \<and> select_child (line_env int) (Finite 1) (nodes line_after_one) 0 = Defined 2"
  using select_child_first_greatest [where h = "nodes line_after_one" and u = 2 and cf = "Finite 1"
      and par = 0 and c = 1 and pre = "[1]" and b = 2 and post = "[]" and env = "line_env int"]
    DBL_MAX_pos
  by (simp add: line_after_one_def uct_formula_def calculate_uct_score_def double_of_int_def
      line_env_def round_binary64_0 round_binary64_1 to_double_0)

text \<open>
  Claim C2 as stated fails: with the exploration factor at the largest finite double,
  a parent visited three times and three children visited once each, the score of a
  visited child overflows to infinity, which is greater than the sentinel of the
  unvisited fourth child; the selector returns the first child although the fourth was
  never tried.
\<close>

theorem sentinel_not_infinite:
  "visit_count (overflow_heap ! 4) = 0
   \<and> child_nodes (overflow_heap ! 0) = [1, 2, 3, 4]
   \<and> calculate_uct_score (line_env int) (Finite DBL_MAX) overflow_heap 4 0 = Finite DBL_MAX
   \<and> calculate_uct_score (line_env int) (Finite DBL_MAX) overflow_heap 1 0 = PosInf
   \<and> select_child (line_env int) (Finite DBL_MAX) overflow_heap 0 = Defined 1
   \<and> visit_count (overflow_heap ! 1) = 1"
proof -
  have lg: "std_log (line_env int) = rounded_log" by (simp add: line_env_def)
  have s: "calculate_uct_score (line_env int) (Finite DBL_MAX) overflow_heap c 0 = PosInf"
    if "c \<in> {1, 2, 3}" for c
    using that by (intro overflow_score lg) (auto simp: overflow_heap_def)
  have u: "calculate_uct_score (line_env int) (Finite DBL_MAX) overflow_heap 4 0 = Finite DBL_MAX"
    by (simp add: calculate_uct_score_def overflow_heap_def)
  have "select_child (line_env int) (Finite DBL_MAX) overflow_heap 0 = Defined 1"
    by (rule select_child_first [where pre = "[]" and post = "[2, 3, 4]"])
       (simp_all add: s u, simp add: overflow_heap_def)
  with s u show ?thesis by (simp add: overflow_heap_def)
qed



text \<open>
  Claim C4. The rollout returns a winner exactly when the relation \<open>rollout\<close> holds,
  which follows the words of the specification: start from the board after the node's
  move, with the node's player as the current player; while the board reports no winner,
  flip to the other player, take the legal move at the index that
  \<^verbatim>\<open>uniform_int_distribution<>(0, n - 1)\<close> draws, apply it for that player and check
  again; the result is the player who was current when a winner was first reported. In
  particular, when the node's own move decides the game, the result is the node's
  player and no random number is drawn. (The distribution of the draw is not part of the
  model.)
\<close>

theorem rollout_refinement:
  "(simulate_random_playout env h node board g = Some (Defined (w, g')) \<longleftrightarrow>
      rollout env (make_move env (fst (move (h ! node))) (snd (move (h ! node)))
                     (player (h ! node)) board)
        (player (h ! node)) g w g')
   \<and> (check_winner env (make_move env (fst (move (h ! node))) (snd (move (h ! node)))
                         (player (h ! node)) board) \<noteq> Empty \<longrightarrow>
        simulate_random_playout env h node board g = Some (Defined (player (h ! node), g)))
   \<and> other_player Blue = Red \<and> other_player Red = Blue"
  using rollout_playout_loop playout_loop_rollout
  by (auto simp: simulate_random_playout_def Let_def playout_loop_won other_player_def)

theorem rollout_refinement_witness:
  "simulate_random_playout (line_env int) (fresh_tree Blue [(0, 0), (0, 1)] 0) 1 [Empty, Empty] (0::nat)
     = Some (Defined (Red, 1))
   \<and> rollout (line_env int) [Blue, Empty] Blue (0::nat) Red 1
   \<and> check_winner (line_env int) [Empty, Blue] \<noteq> Empty
   \<and> simulate_random_playout (line_env int) (fresh_tree Blue [(0, 0), (0, 1)] 0) 2 [Empty, Empty] (0::nat)
     = Some (Defined (Blue, 0))"
  using rollout_refinement [where env = "line_env int" and h = "fresh_tree Blue [(0, 0), (0, 1)] 0"
      and node = 1 and board = "[Empty, Empty]" and g = "0::nat" and w = Red and g' = 1]
    rollout_refinement [where env = "line_env int" and h = "fresh_tree Blue [(0, 0), (0, 1)] 0"
      and node = 2 and board = "[Empty, Empty]" and g = "0::nat"]
  by (simp add: run_simps fresh_tree_def)

text \<open>
  Claim C5, as amended. On a board without legal moves \<^verbatim>\<open>choose_move\<close> has no error
  of its own to fail with: expansion makes no child and raises nothing. If the budget has
  elapsed at the first reading of the clock, the call throws the insufficient-statistics
  runtime error and returns no move. If time is left, the first pass of the loop reads
  \<^verbatim>\<open>child_nodes[0]\<close> of the empty vector, for which C++ defines no behaviour. In no
  case does the model return a move.
\<close>

theorem no_legal_moves:
  assumes "get_valid_moves env (caller_board s) = []"
  shows "(\<forall>mv s'. choose_move env p s \<noteq> Some (Defined (Inr mv, s')))
     \<and> (\<not> now env (clock_reads s + 1) < now env (clock_reads s) + max_decision_time s \<longrightarrow>
          choose_move env p s = Some (Defined (Inl insufficient_statistics,
            s\<lparr>root_node := Some (length (nodes s)),
              nodes := nodes s @ [make_Node p (- 1, - 1) None],
              clock_reads := clock_reads s + 2\<rparr>)))
     \<and> (now env (clock_reads s + 1) < now env (clock_reads s) + max_decision_time s \<longrightarrow>
          choose_move env p s = Some Undefined_behaviour)"
proof -
  let ?r = "length (nodes s)"
  let ?s3 = "s\<lparr>root_node := Some ?r, nodes := nodes s @ [make_Node p (- 1, - 1) None],
               clock_reads := clock_reads s + 1\<rparr>"
  let ?e = "now env (clock_reads s) + max_decision_time s"
  have unfold: "choose_move env p s =
     (case search_loop env ?r ?e ?s3 of None \<Rightarrow> None
      | Some Undefined_behaviour \<Rightarrow> Some Undefined_behaviour
      | Some (Defined s4) \<Rightarrow> Some (Defined (best_move (nodes s4) ?r, s4)))"
    unfolding choose_move_unfold assms by (simp add: fresh_tree_def make_Node_def)
  have no_child: "child_nodes ((nodes s @ [make_Node p (- 1, - 1) None]) ! ?r) = []"
    by (simp add: make_Node_def)
  have stop: "choose_move env p s = Some (Defined (Inl insufficient_statistics,
            s\<lparr>root_node := Some ?r, nodes := nodes s @ [make_Node p (- 1, - 1) None],
              clock_reads := clock_reads s + 2\<rparr>))"
    if "\<not> now env (clock_reads s + 1) < ?e"
    unfolding unfold using that no_child
    by (simp add: search_loop_stop best_move_def insufficient_statistics_def)
  have go: "choose_move env p s = Some Undefined_behaviour"
    if "now env (clock_reads s + 1) < ?e"
    unfolding unfold using that no_child
    by (simp add: search_loop_go iteration_def select_child_def)
  from stop go show ?thesis by (cases "now env (clock_reads s + 1) < ?e") auto
qed

theorem no_legal_moves_witness:
  "get_valid_moves (line_env int) (caller_board (line_start (Finite 1) 5 [Blue])) = []
   \<and> now (line_env int) (clock_reads (line_start (Finite 1) 5 [Blue]) + 1)
       < now (line_env int) (clock_reads (line_start (Finite 1) 5 [Blue]))
         + max_decision_time (line_start (Finite 1) 5 [Blue])
   \<and> choose_move (line_env int) Red (line_start (Finite 1) 5 [Blue]) = Some Undefined_behaviour
   \<and> get_valid_moves (line_env (affine_clock 0 5)) (caller_board (line_start (Finite 1) 5 [Blue])) = []
   \<and> \<not> now (line_env (affine_clock 0 5)) (clock_reads (line_start (Finite 1) 5 [Blue]) + 1)
       < now (line_env (affine_clock 0 5)) (clock_reads (line_start (Finite 1) 5 [Blue]))
         + max_decision_time (line_start (Finite 1) 5 [Blue])
   \<and> choose_move (line_env (affine_clock 0 5)) Red (line_start (Finite 1) 5 [Blue])
       = Some (Defined (Inl insufficient_statistics, line_no_moves_after Red 5 [Blue]))"
  using no_legal_moves [where env = "line_env int" and s = "line_start (Finite 1) 5 [Blue]" and p = Red]
    no_legal_moves [where env = "line_env (affine_clock 0 5)" and s = "line_start (Finite 1) 5 [Blue]" and p = Red]
  by (simp add: line_env_def line_start_def line_no_moves_after_def affine_clock_def)

text \<open>
  Claim C5 as stated fails: on a board without legal moves the failure is the
  insufficient-statistics error when the budget has elapsed at once, and there is no
  failure at all, but an undefined read, when it has not.
\<close>

theorem no_legal_moves_error_missing:
  "get_valid_moves (line_env (affine_clock 0 5)) (caller_board (line_start (Finite 1) 5 [Red])) = []
   \<and> choose_move (line_env (affine_clock 0 5)) Red (line_start (Finite 1) 5 [Red])
       = Some (Defined (Inl insufficient_statistics, line_no_moves_after Red 5 [Red]))
   \<and> choose_move (line_env int) Red (line_start (Finite 1) 5 [Red]) = Some Undefined_behaviour"
  by (simp add: run_simps insufficient_statistics_def line_no_moves_after_def affine_clock_def)

text \<open>
  Claim C6, as amended. When the search loop has ended, \<^verbatim>\<open>choose_move\<close> throws the
  runtime error "Statistics are not sufficient to find the best child." if and only if
  no child of the root has a positive visit count; otherwise it returns the move of a
  child of the root. This runtime error is the only failure that \<^verbatim>\<open>choose_move\<close>
  reports, so the caller cannot tell a position without legal moves from a budget that
  was too small.
\<close>

theorem insufficient_statistics_iff:
  assumes "choose_move env p s = Some (Defined (res, s'))"
  shows "(res = Inl insufficient_statistics \<longleftrightarrow>
           (\<forall>c\<in>set (child_nodes (nodes s' ! length (nodes s))). visit_count (nodes s' ! c) \<le> 0))
       \<and> (res = Inl insufficient_statistics \<or>
           (\<exists>c\<in>set (child_nodes (nodes s' ! length (nodes s))). res = Inr (move (nodes s' ! c))))"
  using best_move_fails_iff [OF choose_move_tree(7) [OF assms]]
    best_move_total [of "nodes s'" "length (nodes s)"]
  unfolding choose_move_Defined(1) [OF assms] by blast

theorem insufficient_statistics_iff_witness:
  "choose_move (line_env int) Blue (line_start (Finite 1) 0 [Empty, Empty])
     = Some (Defined (Inl insufficient_statistics,
         (line_start (Finite 1) 0 [Empty, Empty])\<lparr>root_node := Some 0,
            nodes := fresh_tree Blue [(0, 0), (0, 1)] 0, clock_reads := 2\<rparr>))
   \<and> visit_count (fresh_tree Blue [(0, 0), (0, 1)] 0 ! 1) \<le> 0
   \<and> visit_count (fresh_tree Blue [(0, 0), (0, 1)] 0 ! 2) \<le> 0"
  using insufficient_statistics_iff [where env = "line_env int" and p = Blue
      and s = "line_start (Finite 1) 0 [Empty, Empty]" and res = "Inl insufficient_statistics"
      and s' = "(line_start (Finite 1) 0 [Empty, Empty])\<lparr>root_node := Some 0,
            nodes := fresh_tree Blue [(0, 0), (0, 1)] 0, clock_reads := 2\<rparr>"]
  by (simp add: run_simps fresh_tree_def upt_rec insufficient_statistics_def)

text \<open>
  Claim C6 as stated fails: on a board without legal moves and a budget that has
  elapsed at the first reading of the clock, the failure is the very runtime error of
  the insufficient statistics; no other failure exists to tell it from.
\<close>

theorem same_failure_without_moves:
  "get_valid_moves (line_env int) (caller_board (line_start (Finite 1) 0 [Red])) = []
   \<and> choose_move (line_env int) Blue (line_start (Finite 1) 0 [Red])
       = Some (Defined (Inl insufficient_statistics, line_no_moves_after Blue 0 [Red]))"
  by (simp add: run_simps insufficient_statistics_def line_no_moves_after_def affine_clock_def)

text \<open>
  Claim C7, as amended. On a position without a winner and without legal moves the
  rollout checks nothing and reports nothing: it builds
  \<^verbatim>\<open>uniform_int_distribution<>(0, -1)\<close> and indexes the empty vector of moves, and
  C++ defines no behaviour for that. This holds at the head of the loop and for the
  position that the node's own move leaves. The rollout relies on its collaborators
  instead: when every position without a winner has a legal move and every draw lies in
  its range, no rollout ends this way.
\<close>

theorem playout_without_moves:
  "(check_winner env board = Empty \<and> get_valid_moves env board = [] \<longrightarrow>
      playout_loop env board p g = Some Undefined_behaviour)
   \<and> (check_winner env (make_move env (fst (move (h ! node))) (snd (move (h ! node)))
         (player (h ! node)) board0) = Empty \<and>
       get_valid_moves env (make_move env (fst (move (h ! node))) (snd (move (h ! node)))
         (player (h ! node)) board0) = [] \<longrightarrow>
      simulate_random_playout env h node board0 g = Some Undefined_behaviour)
   \<and> (board_contract env_c \<longrightarrow>
      simulate_random_playout env_c h_c node_c board_c g_c \<noteq> Some Undefined_behaviour)"
  using playout_loop_defined [of env_c]
  by (auto simp: simulate_random_playout_def Let_def playout_loop_stuck)

theorem playout_without_moves_witness:
  "check_winner (line_env int) [Blue] = Empty \<and> get_valid_moves (line_env int) [Blue] = []
   \<and> playout_loop (line_env int) [Blue] Blue (0::nat) = Some Undefined_behaviour
   \<and> simulate_random_playout (line_env int) (fresh_tree Blue [(0, 0)] 0) 1 [Empty] (0::nat)
       = Some Undefined_behaviour
   \<and> simulate_random_playout count_env (fresh_tree Blue [(0, 0)] 0) 1 0 (0::nat)
       = Some (Defined (Red, 1))"
  using playout_without_moves [where env = "line_env int" and board = "[Blue]" and p = Blue
      and g = "0::nat" and h = "fresh_tree Blue [(0, 0)] 0" and node = 1 and board0 = "[Empty]"
      and env_c = count_env and h_c = "fresh_tree Blue [(0, 0)] 0" and node_c = 1 and board_c = 0
      and g_c = "0::nat"]
    board_contract_count_env
  by (simp add: line_env_def line_winner_def fresh_tree_def make_Node_def count_env_def
      simulate_random_playout_def playout_loop_won playout_loop_move other_player_def)

text \<open>
  Claim C7 as stated fails: after Red's move on the only cell of a one-cell board
  there is no winner and no legal move, and the rollout ends in the undefined read; the
  function has no failure to report.
\<close>

theorem playout_reports_nothing:
  "check_winner (line_env int) [Red] = Empty \<and> get_valid_moves (line_env int) [Red] = []
   \<and> simulate_random_playout (line_env int) (fresh_tree Red [(0, 0)] 0) 1 [Empty] (7::nat)
       = Some Undefined_behaviour"
  by (simp add: line_env_def line_winner_def fresh_tree_def make_Node_def
      simulate_random_playout_def playout_loop_stuck)

text \<open>
  Claim C8, as amended. In single-threaded mode, from the same state of the random
  generator, the same position and the same time budget, two runs of \<^verbatim>\<open>choose_move\<close>
  whose clocks let the loop make the same number of passes give the same result (the
  same move or failure, and the same final state). The number of passes is decided by
  the readings of the clock, not by the budget alone.
\<close>

theorem same_passes_same_choice:
  assumes "passes_allowed c1 (clock_reads s + 1) (c1 (clock_reads s) + max_decision_time s) n"
    and "passes_allowed c2 (clock_reads s + 1) (c2 (clock_reads s) + max_decision_time s) n"
    and "\<not> is_parallelized s"
  shows "choose_move (env\<lparr>now := c1\<rparr>) p s = choose_move (env\<lparr>now := c2\<rparr>) p s"
proof -
  let ?s3 = "s\<lparr>root_node := Some (length (nodes s)),
                nodes := nodes s @ fresh_tree p (get_valid_moves env (caller_board s)) (length (nodes s)),
                clock_reads := clock_reads s + 1\<rparr>"
  have "search_loop (env\<lparr>now := c\<rparr>) (length (nodes s)) (c (clock_reads s) + max_decision_time s) ?s3
        = search_passes env (length (nodes s)) n ?s3"
    if "passes_allowed c (clock_reads s + 1) (c (clock_reads s) + max_decision_time s) n" for c
    using search_loop_passes [of "env\<lparr>now := c\<rparr>" ?s3 "c (clock_reads s) + max_decision_time s" n
        "length (nodes s)"] that
    by (simp add: search_passes_now)
  from this [OF assms(1)] this [OF assms(2)] show ?thesis
    unfolding choose_move_unfold by simp
qed

theorem same_passes_same_choice_witness:
  "passes_allowed int (clock_reads (line_start (Finite 1) 3 [Empty, Empty]) + 1)
     (int (clock_reads (line_start (Finite 1) 3 [Empty, Empty]))
        + max_decision_time (line_start (Finite 1) 3 [Empty, Empty])) 2
   \<and> passes_allowed (affine_clock 10 1) (clock_reads (line_start (Finite 1) 3 [Empty, Empty]) + 1)
     (affine_clock 10 1 (clock_reads (line_start (Finite 1) 3 [Empty, Empty]))
        + max_decision_time (line_start (Finite 1) 3 [Empty, Empty])) 2
   \<and> \<not> is_parallelized (line_start (Finite 1) 3 [Empty, Empty])
   \<and> choose_move (line_env int) Blue (line_start (Finite 1) 3 [Empty, Empty])
       = Some (Defined (Inr (0, 1), line_after_two))
   \<and> choose_move (line_env (affine_clock 10 1)) Blue (line_start (Finite 1) 3 [Empty, Empty])
       = Some (Defined (Inr (0, 1), line_after_two))"
proof -
  have a: "passes_allowed int (clock_reads (line_start (Finite 1) 3 [Empty, Empty]) + 1)
     (int (clock_reads (line_start (Finite 1) 3 [Empty, Empty]))
        + max_decision_time (line_start (Finite 1) 3 [Empty, Empty])) 2"
    by (simp add: passes_allowed_def line_start_def eval_nat_numeral less_Suc_eq)
  have b: "passes_allowed (affine_clock 10 1) (clock_reads (line_start (Finite 1) 3 [Empty, Empty]) + 1)
     (affine_clock 10 1 (clock_reads (line_start (Finite 1) 3 [Empty, Empty]))
        + max_decision_time (line_start (Finite 1) 3 [Empty, Empty])) 2"
    by (simp add: passes_allowed_def line_start_def affine_clock_def eval_nat_numeral less_Suc_eq)
  have c: "\<not> is_parallelized (line_start (Finite 1) 3 [Empty, Empty])"
    by (simp add: line_start_def)
  have e: "(line_env int)\<lparr>now := c\<rparr> = line_env c" for c
    by (simp add: line_env_def)
  from same_passes_same_choice [OF a b c, of "line_env int" Blue] line_run_two
  have "choose_move (line_env (affine_clock 10 1)) Blue (line_start (Finite 1) 3 [Empty, Empty])
       = Some (Defined (Inr (0, 1), line_after_two))"
    by (simp add: e)
  with a b c line_run_two show ?thesis by simp
qed

text \<open>
  Claim C8 as stated fails: with the same generator state, the same position, the same
  budget of 3 and single-threaded mode, a clock that advances by one per reading allows
  two passes and the move is (0, 1); a clock that advances by two per reading allows
  one pass and the move is (0, 0).
\<close>

theorem clock_changes_choice:
  "choose_move (line_env int) Blue (line_start (Finite 1) 3 [Empty, Empty])
     = Some (Defined (Inr (0, 1), line_after_two))
   \<and> choose_move (line_env (affine_clock 0 2)) Blue (line_start (Finite 1) 3 [Empty, Empty])
     = Some (Defined (Inr (0, 0), line_after_one))
   \<and> \<not> is_parallelized (line_start (Finite 1) 3 [Empty, Empty])"
  using line_run_two line_run_one by (simp add: line_start_def)

text \<open>
  Claim C9. Expansion appends one new child per valid move to the children of the
  node, in the order of the board's enumeration: the moves of the new children are
  exactly the list of valid moves, every new child has the player of the expanded node
  and the expanded node as its parent. On a node that had no children (the only case in
  a search: the fresh root), the moves of all its children are the list of valid moves.
\<close>

theorem expand_node_children:
  fixes env :: "('b, 'g) environment" and s :: "('b, 'g) state"
  assumes "node < length (nodes s)"
  defines "h \<equiv> nodes s"
  defines "h' \<equiv> nodes (expand_node env node s)"
  defines "ms \<equiv> get_valid_moves env (caller_board s)"
  defines "new \<equiv> [length (nodes s) ..< length (nodes s) + length (get_valid_moves env (caller_board s))]"
  shows "child_nodes (h' ! node) = child_nodes (h ! node) @ new
     \<and> map (\<lambda>c. move (h' ! c)) new = ms
     \<and> (\<forall>c\<in>set new. player (h' ! c) = player (h ! node) \<and> parent_node (h' ! c) = Some node)
     \<and> player (h' ! node) = player (h ! node)
     \<and> (child_nodes (h ! node) = [] \<longrightarrow> map (\<lambda>c. move (h' ! c)) (child_nodes (h' ! node)) = ms)"
proof -
  let ?mk = "\<lambda>m. make_Node (player (h ! node)) m (Some node)"
  have h': "h' = h[node := (h ! node)\<lparr>child_nodes := child_nodes (h ! node) @ new\<rparr>] @ map ?mk ms"
    unfolding h'_def h_def ms_def new_def expand_node_def Let_def
    using assms(1) by (simp add: expand_moves_eq del: upt_Suc)
  have at: "h' ! (length h + i) = ?mk (ms ! i)" if "i < length ms" for i
    using that by (simp add: h' nth_append)
  have new: "new = map (\<lambda>i. length h + i) [0 ..< length ms]"
    unfolding new_def h_def ms_def by (rule nth_equalityI) simp_all
  have 1: "child_nodes (h' ! node) = child_nodes (h ! node) @ new"
    using assms(1) by (simp add: h' nth_append h_def)
  have "map (\<lambda>c. move (h' ! c)) new = map (\<lambda>i. ms ! i) [0 ..< length ms]"
    unfolding new by (simp add: at make_Node_def del: upt_Suc)
  then have 2: "map (\<lambda>c. move (h' ! c)) new = ms"
    by (simp add: map_nth)
  have 3: "\<forall>c\<in>set new. player (h' ! c) = player (h ! node) \<and> parent_node (h' ! c) = Some node"
  proof
    fix c assume "c \<in> set new"
    then have "c - length h < length ms" "c = length h + (c - length h)"
      unfolding new_def h_def ms_def by auto
    then obtain i where "i < length ms" "c = length h + i"
      by blast
    then show "player (h' ! c) = player (h ! node) \<and> parent_node (h' ! c) = Some node"
      by (simp add: at make_Node_def)
  qed
  have 4: "player (h' ! node) = player (h ! node)"
    using assms(1) by (simp add: h' nth_append h_def)
  from 1 2 3 4 show ?thesis by simp
qed

theorem expand_node_children_witness:
  "(0::nat) < length (nodes ((line_start (Finite 1) 3 [Empty, Red, Empty])\<lparr>nodes := [make_Node Blue (- 1, - 1) None]\<rparr>))
   \<and> map (\<lambda>c. move (nodes (expand_node (line_env int) 0
          ((line_start (Finite 1) 3 [Empty, Red, Empty])\<lparr>nodes := [make_Node Blue (- 1, - 1) None]\<rparr>)) ! c))
        [1 ..< 3] = [(0, 0), (0, 2)]
   \<and> child_nodes (nodes (expand_node (line_env int) 0
          ((line_start (Finite 1) 3 [Empty, Red, Empty])\<lparr>nodes := [make_Node Blue (- 1, - 1) None]\<rparr>)) ! 0)
        = [1, 2]"
  using expand_node_children [where node = 0 and env = "line_env int"
      and s = "(line_start (Finite 1) 3 [Empty, Red, Empty])\<lparr>nodes := [make_Node Blue (- 1, - 1) None]\<rparr>"]
  by (simp add: line_start_def line_env_def make_Node_def upt_rec expand_node_def)

text \<open>
  Claim C10. The board object of the caller is the same after \<^verbatim>\<open>choose_move\<close> as
  before, whether the call returns a move or throws; each pass of the search loop
  leaves it unchanged as well. Rollouts work on the value they are handed.
\<close>

theorem caller_board_unchanged:
  "(choose_move env p s = Some (Defined (res, s')) \<longrightarrow> caller_board s' = caller_board s)
   \<and> (iteration env r t = Some (Defined t') \<longrightarrow> caller_board t' = caller_board t)"
proof -
  have "caller_board t' = caller_board t" if "iteration env r t = Some (Defined t')"
    using iteration_counters_only [OF that] unfolding counters_only_def by auto
  then show ?thesis using choose_move_Defined(2) by blast
qed

theorem caller_board_unchanged_witness:
  "choose_move (line_env int) Blue (line_start (Finite 1) 3 [Empty, Empty])
     = Some (Defined (Inr (0, 1), line_after_two))
   \<and> caller_board line_after_two = caller_board (line_start (Finite 1) 3 [Empty, Empty])
   \<and> iteration (line_env int) 0
         ((line_start (Finite 1) 3 [Empty, Empty])\<lparr>nodes := fresh_tree Blue [(0, 0), (0, 1)] 0\<rparr>)
     = Some (Defined ((line_start (Finite 1) 3 [Empty, Empty])\<lparr>random_generator := 1,
          nodes := [\<lparr>win_count = 0, visit_count = 1, move = (- 1, - 1), player = Blue,
                     child_nodes = [1, 2], parent_node = None\<rparr>,
                   \<lparr>win_count = 0, visit_count = 1, move = (0, 0), player = Blue,
                     child_nodes = [], parent_node = Some 0\<rparr>,
                   \<lparr>win_count = 0, visit_count = 0, move = (0, 1), player = Blue,
                     child_nodes = [], parent_node = Some 0\<rparr>]\<rparr>))"
  using caller_board_unchanged [where env = "line_env int" and p = Blue
      and s = "line_start (Finite 1) 3 [Empty, Empty]" and res = "Inr (0, 1)"
      and s' = line_after_two and r = 0
      and t = "(line_start (Finite 1) 3 [Empty, Empty])\<lparr>nodes := fresh_tree Blue [(0, 0), (0, 1)] 0\<rparr>"]
    line_run_two
  by (simp add: run_simps line_after_two_def fresh_tree_def upt_rec)

end
